theory Spec2Isabelle
  imports Main "HOL-Library.Word"
begin

unbundle bit_operations_syntax

section \<open>Errors\<close>

text \<open>
  The undefined behaviours the code can run into are values of the type \<open>error\<close>:
  following a null pointer, touching or deleting a node that was already
  deleted, reading a byte outside of the \<open>N\<close> bytes of a \<open>BitArray\<close>, pushing on a
  full stack array, and a loop that never ends.  \<open>RuntimeError\<close> is the
  \<open>std::runtime_error\<close> of the \<open>BitArray\<close> constructor.
\<close>

datatype error =
    RuntimeError
  | NullDeref
  | UseAfterFree
  | DoubleFree
  | OutOfBounds
  | StackOverflow
  | Diverges

text \<open>
  A member function that can throw \<open>std::out_of_range\<close> (\<open>at\<close>, \<open>best\<close> and
  \<open>erase\<close>; the specification calls the exception NotFound) either returns a value
  or leaves with the exception; \<open>OutOfRange s\<close> holds the state \<open>s\<close> the trie is in
  when the exception is thrown.
\<close>

datatype ('s, 'a) outcome =
    Returns 'a
  | OutOfRange 's

section \<open>bitarray.h: the class BitArray\<close>

type_synonym byte = "8 word"

text \<open>
  \<open>BitArray<N>\<close> holds \<open>unsigned char bits[N]\<close> and \<open>size_t bitCount\<close>.  The
  byte array is the field \<open>storage\<close> here (the node of the trie has a field
  \<open>bits\<close> of its own); its length is the template parameter \<open>N\<close>.
\<close>

record bitarray =
  storage :: "byte list"
  bitCount :: nat

text \<open>\<open>BitArray()\<close> sets \<open>bitCount\<close> to 0 and leaves the bytes as they are in
  memory: they are the argument \<open>junk\<close>.\<close>

definition BitArray_default :: "byte list \<Rightarrow> bitarray" where
  "BitArray_default junk = \<lparr>storage = junk, bitCount = 0\<rparr>"

text \<open>\<open>getByteCount\<close>: \<open>(nbits + 7) >> 3\<close> on a \<open>size_t\<close> of 64 bits, where the sum
  wraps around.\<close>

definition getByteCount :: "nat \<Rightarrow> nat" where
  "getByteCount nbits = unat (drop_bit 3 (word_of_nat nbits + 7 :: 64 word))"

text \<open>\<open>BitArray(unsigned char* bits, size_t nbits)\<close>: \<open>memcpy\<close> of the first
  \<open>byteCount\<close> bytes of the buffer over the \<open>N\<close> bytes \<open>junk\<close> of the new object.
  The test is on \<open>byteCount\<close>, so that a \<open>nbits\<close> for which the sum has wrapped
  passes it.\<close>

definition BitArray_bytes :: "nat \<Rightarrow> byte list \<Rightarrow> byte list \<Rightarrow> nat \<Rightarrow> error + bitarray" where
  "BitArray_bytes N junk buf nbits =
     (let byteCount = getByteCount nbits in
      if byteCount > N then Inl RuntimeError
      else if byteCount > length buf then Inl OutOfBounds
      else Inr \<lparr>storage = take byteCount buf @ drop byteCount junk, bitCount = nbits\<rparr>)"

definition key_empty :: "bitarray \<Rightarrow> bool" where
  "key_empty a = (bitCount a = 0)"

definition key_size :: "bitarray \<Rightarrow> nat" where
  "key_size a = bitCount a"

text \<open>Reading \<open>bits[i]\<close>.\<close>

definition byte_at :: "bitarray \<Rightarrow> nat \<Rightarrow> error + byte" where
  "byte_at a i = (if i < length (storage a) then Inr (storage a ! i) else Inl OutOfBounds)"

text \<open>\<open>operator[](pos)\<close>: the byte \<open>pos / 8\<close> under the mask
  \<open>(1 << (WORD_BITS - 1)) >> offset\<close>.\<close>

definition bit_at :: "bitarray \<Rightarrow> nat \<Rightarrow> error + bool" where
  "bit_at a pos =
     (let n = pos div 8; offset = pos mod 8 in
      case byte_at a n of
        Inl e \<Rightarrow> Inl e
      | Inr p \<Rightarrow> Inr (p AND drop_bit offset (push_bit 7 1) \<noteq> 0))"

text \<open>\<open>__builtin_clz\<close> on a 32 bit \<open>unsigned int\<close>: the number of zero bits above
  the highest one bit (the loop looks at bit 31 first).\<close>

primrec clz_below :: "32 word \<Rightarrow> nat \<Rightarrow> nat" where
  "clz_below r 0 = 0"
| "clz_below r (Suc k) = (if bit r k then 0 else Suc (clz_below r k))"

definition builtin_clz :: "32 word \<Rightarrow> nat" where
  "builtin_clz r = clz_below r 32"

text \<open>The loop of \<open>firstDifferentBit\<close>: \<open>i\<close> is the byte index and \<open>result\<close> the
  local variable of that name.\<close>

function fdb_loop :: "bitarray \<Rightarrow> bitarray \<Rightarrow> nat \<Rightarrow> nat \<Rightarrow> nat \<Rightarrow> error + nat" where
  "fdb_loop a other n i result =
     (if i * 8 < n then
        (case byte_at a i of
           Inl e \<Rightarrow> Inl e
         | Inr x \<Rightarrow>
            (case byte_at other i of
               Inl e \<Rightarrow> Inl e
             | Inr y \<Rightarrow>
                (let r = (ucast x XOR ucast y :: 32 word) in
                 if r = 0 then fdb_loop a other n (i + 1) ((i + 1) * 8)
                 else Inr (i * 8 + (builtin_clz r - (4 - 1) * 8)))))
      else Inr result)"
  by pat_completeness auto
termination
  by (relation "measure (\<lambda>(a, other, n, i, result). n - i * 8)") auto

definition firstDifferentBit :: "bitarray \<Rightarrow> bitarray \<Rightarrow> nat \<Rightarrow> error + nat" where
  "firstDifferentBit a other n =
     (case fdb_loop a other n 0 0 of
        Inl e \<Rightarrow> Inl e
      | Inr result \<Rightarrow> Inr (if result > n then n else result))"

text \<open>\<open>memcmp\<close> and \<open>strncmp\<close> on the byte arrays: the sign of the first
  difference among the first \<open>n\<close> bytes, read as \<open>unsigned char\<close>; \<open>strncmp\<close> also
  stops behind a zero byte.\<close>

fun memcmp :: "byte list \<Rightarrow> byte list \<Rightarrow> nat \<Rightarrow> error + int" where
  "memcmp xs ys 0 = Inr 0"
| "memcmp (x # xs) (y # ys) (Suc n) =
     (if x = y then memcmp xs ys n else if x < y then Inr (- 1) else Inr 1)"
| "memcmp xs ys (Suc n) = Inl OutOfBounds"

fun strncmp :: "byte list \<Rightarrow> byte list \<Rightarrow> nat \<Rightarrow> error + int" where
  "strncmp xs ys 0 = Inr 0"
| "strncmp (x # xs) (y # ys) (Suc n) =
     (if x \<noteq> y then (if x < y then Inr (- 1) else Inr 1)
      else if x = 0 then Inr 0
      else strncmp xs ys n)"
| "strncmp xs ys (Suc n) = Inl OutOfBounds"

definition compareBits :: "bitarray \<Rightarrow> bitarray \<Rightarrow> nat \<Rightarrow> error + bool" where
  "compareBits a other nbits =
     (if nbits > bitCount a \<or> nbits > bitCount other then Inr False
      else
        let n = nbits div 8; offset = nbits mod 8 in
        case memcmp (storage a) (storage other) n of
          Inl e \<Rightarrow> Inl e
        | Inr c \<Rightarrow>
            if c \<noteq> 0 then Inr False
            else if offset \<noteq> 0 then
              (case byte_at a n of
                 Inl e \<Rightarrow> Inl e
               | Inr lhsLastByte \<Rightarrow>
                  (case byte_at other n of
                     Inl e \<Rightarrow> Inl e
                   | Inr rhsLastByte \<Rightarrow>
                      (let mask = (ucast (push_bit (8 - offset) (NOT 0 :: 32 word)) :: byte) in
                       if lhsLastByte AND mask \<noteq> rhsLastByte AND mask then Inr False
                       else Inr True)))
            else Inr True)"

text \<open>\<open>operator<\<close> and \<open>operator==\<close> on two \<open>BitArray<N>\<close>.\<close>

definition less_bitarray :: "bitarray \<Rightarrow> bitarray \<Rightarrow> error + bool" where
  "less_bitarray lhs rhs =
     (if bitCount lhs < bitCount rhs then Inr True
      else if bitCount lhs > bitCount rhs then Inr False
      else
        case strncmp (storage lhs) (storage rhs) (getByteCount (bitCount lhs)) of
          Inl e \<Rightarrow> Inl e
        | Inr c \<Rightarrow> if c < 0 then Inr True else if c > 0 then Inr False else Inr False)"

definition eq_bitarray :: "bitarray \<Rightarrow> bitarray \<Rightarrow> error + bool" where
  "eq_bitarray lhs rhs =
     (if bitCount lhs = bitCount rhs then compareBits lhs rhs (bitCount lhs) else Inr False)"

text \<open>A \<open>BitArray<N>\<close>: \<open>N\<close> bytes, and the invariant \<open>bitCount \<le> N * 8\<close> that the
  constructor and \<open>setSize\<close> check.\<close>

definition wf_key :: "nat \<Rightarrow> bitarray \<Rightarrow> bool" where
  "wf_key N a = (length (storage a) = N \<and> bitCount a \<le> N * 8)"


text \<open>The bit \<open>pos\<close> of the storage, most significant bit of each byte first: what
  \<open>operator[]\<close> returns inside of the array.\<close>

definition kbit :: "bitarray \<Rightarrow> nat \<Rightarrow> bool" where
  "kbit a pos = bit (storage a ! (pos div 8)) (7 - pos mod 8)"

section \<open>bintrie.h: the class BinaryTrie\<close>

subsection \<open>Nodes and the store\<close>

text \<open>
  A \<open>Node*\<close> is an address or null.  The store is the list of all the cells
  \<open>new\<close> has handed out so far, indexed by address: \<open>new\<close> appends a cell,
  \<open>delete\<close> empties one, and no address is handed out twice.  \<open>data\<close> is \<open>None\<close>
  until the caller assigns through the reference \<open>operator[]\<close> returned.
\<close>

type_synonym addr = nat

record 'v node =
  left :: "addr option"
  right :: "addr option"
  parent :: "addr option"
  data :: "'v option"
  key :: bitarray
  bits :: nat

record 'v trie =
  heap :: "'v node option list"
  root :: "addr option"
  numNodes :: nat

text \<open>\<open>BinaryTrie()\<close>\<close>

definition BinaryTrie :: "'v trie" where
  "BinaryTrie = \<lparr>heap = [], root = None, numNodes = 0\<rparr>"

text \<open>\<open>Node()\<close> and \<open>Node(key, bits)\<close>\<close>

definition Node_default :: "byte list \<Rightarrow> 'v node" where
  "Node_default junk =
     \<lparr>left = None, right = None, parent = None, data = None,
      key = BitArray_default junk, bits = 0\<rparr>"

definition Node_key :: "bitarray \<Rightarrow> nat \<Rightarrow> 'v node" where
  "Node_key k b = \<lparr>left = None, right = None, parent = None, data = None, key = k, bits = b\<rparr>"

definition and_then :: "error + 'a \<Rightarrow> ('a \<Rightarrow> error + 'b) \<Rightarrow> error + 'b" where
  "and_then m f = (case m of Inl e \<Rightarrow> Inl e | Inr x \<Rightarrow> f x)"

definition cell :: "'v trie \<Rightarrow> addr \<Rightarrow> 'v node option" where
  "cell s a = (if a < length (heap s) then heap s ! a else None)"

text \<open>Reading through a pointer: \<open>p->...\<close>\<close>

definition get :: "'v trie \<Rightarrow> addr \<Rightarrow> error + 'v node" where
  "get s a = (case cell s a of None \<Rightarrow> Inl UseAfterFree | Some n \<Rightarrow> Inr n)"

definition get_ptr :: "'v trie \<Rightarrow> addr option \<Rightarrow> error + 'v node" where
  "get_ptr s p = (case p of None \<Rightarrow> Inl NullDeref | Some a \<Rightarrow> get s a)"

text \<open>Writing a field through a pointer: \<open>p->f = v\<close>\<close>

definition store :: "addr \<Rightarrow> 'v node \<Rightarrow> 'v trie \<Rightarrow> 'v trie" where
  "store a n s = s\<lparr>heap := (heap s)[a := Some n]\<rparr>"

definition upd :: "addr \<Rightarrow> ('v node \<Rightarrow> 'v node) \<Rightarrow> 'v trie \<Rightarrow> error + 'v trie" where
  "upd a f s = (case cell s a of None \<Rightarrow> Inl UseAfterFree | Some n \<Rightarrow> Inr (store a (f n) s))"

definition upd_ptr :: "addr option \<Rightarrow> ('v node \<Rightarrow> 'v node) \<Rightarrow> 'v trie \<Rightarrow> error + 'v trie" where
  "upd_ptr p f s = (case p of None \<Rightarrow> Inl NullDeref | Some a \<Rightarrow> upd a f s)"

definition alloc :: "'v node \<Rightarrow> 'v trie \<Rightarrow> 'v trie" where
  "alloc n s = s\<lparr>heap := heap s @ [Some n]\<rparr>"

definition new_node :: "'v node \<Rightarrow> 'v trie \<Rightarrow> addr \<times> 'v trie" where
  "new_node n s = (length (heap s), alloc n s)"

definition free :: "addr \<Rightarrow> 'v trie \<Rightarrow> 'v trie" where
  "free a s = s\<lparr>heap := (heap s)[a := None]\<rparr>"

definition delete_node :: "addr \<Rightarrow> 'v trie \<Rightarrow> error + 'v trie" where
  "delete_node a s = (if cell s a = None then Inl DoubleFree else Inr (free a s))"

text \<open>\<open>numNodes--\<close> on a \<open>size_t\<close> of 64 bits.\<close>

definition decr :: "nat \<Rightarrow> nat" where
  "decr n = (if n = 0 then 2 ^ 64 - 1 else n - 1)"

text \<open>The nodes that are allocated and not deleted.\<close>

definition live :: "'v trie \<Rightarrow> addr set" where
  "live s = {a. cell s a \<noteq> None}"

subsection \<open>clear, empty, size\<close>

text \<open>
  The loop of \<open>clear\<close>.  \<open>stack\<close> is the array \<open>Node* stack[N * 8 + 1]\<close> with its
  top first, \<open>nd\<close> the variable \<open>node\<close>.  Every round deletes a node, so a walk of
  more rounds than there are cells has met a deleted node before.
\<close>

primrec clear_loop :: "nat \<Rightarrow> nat \<Rightarrow> 'v trie \<Rightarrow> addr list \<Rightarrow> addr option \<Rightarrow> error + 'v trie" where
  "clear_loop 0 N s stack nd = (case nd of None \<Rightarrow> Inr s | Some a \<Rightarrow> Inl Diverges)"
| "clear_loop (Suc fuel) N s stack nd =
     (case nd of
        None \<Rightarrow> Inr s
      | Some a \<Rightarrow>
          and_then (get s a) (\<lambda>n.
          let r = right n; l = left n in
          and_then (delete_node a s) (\<lambda>s1.
          case l of
            Some l' \<Rightarrow>
              (case r of
                 Some r' \<Rightarrow>
                   if length stack < N * 8 + 1 then clear_loop fuel N s1 (r' # stack) l
                   else Inl StackOverflow
               | None \<Rightarrow> clear_loop fuel N s1 stack l)
          | None \<Rightarrow>
              (case r of
                 Some r' \<Rightarrow> clear_loop fuel N s1 stack r
               | None \<Rightarrow>
                  (case stack of
                     t # stack' \<Rightarrow> clear_loop fuel N s1 stack' (Some t)
                   | [] \<Rightarrow> clear_loop fuel N s1 stack None)))))"

definition clear :: "nat \<Rightarrow> 'v trie \<Rightarrow> error + 'v trie" where
  "clear N s =
     (case root s of
        None \<Rightarrow> Inr s
      | Some r \<Rightarrow>
          and_then (clear_loop (length (heap s) + 1) N s [] (root s)) (\<lambda>s1.
          Inr (s1\<lparr>numNodes := 0\<rparr>)))"

definition trie_empty :: "'v trie \<Rightarrow> bool" where
  "trie_empty s = (root s = None)"

definition trie_size :: "'v trie \<Rightarrow> nat" where
  "trie_size s = numNodes s"

subsection \<open>lookupNode and operator[]\<close>

text \<open>
  The loops that walk along pointers take \<open>fuel\<close>: the number of rounds they may
  run.  The store does not change during such a walk and the next node depends on
  the current one only, so a walk of more rounds than the store has cells is
  caught in a cycle; this is the outcome \<open>Diverges\<close>.  The callers pass
  \<open>length (heap s) + 1\<close>.
\<close>

text \<open>"walk to nearest data node"\<close>

primrec lookup_descend :: "nat \<Rightarrow> bitarray \<Rightarrow> 'v trie \<Rightarrow> addr \<Rightarrow> error + addr" where
  "lookup_descend 0 k s a = Inl Diverges"
| "lookup_descend (Suc fuel) k s a =
     and_then (get s a) (\<lambda>n.
     if bits n < key_size k \<or> key_empty (key n) then
       and_then (bit_at k (bits n)) (\<lambda>b.
       if b then (case right n of None \<Rightarrow> Inr a | Some c \<Rightarrow> lookup_descend fuel k s c)
       else (case left n of None \<Rightarrow> Inr a | Some c \<Rightarrow> lookup_descend fuel k s c))
     else Inr a)"

text \<open>"walk back before different bit"\<close>

primrec lookup_walkback :: "nat \<Rightarrow> 'v trie \<Rightarrow> nat \<Rightarrow> addr \<Rightarrow> error + addr" where
  "lookup_walkback 0 s diffBit a = Inl Diverges"
| "lookup_walkback (Suc fuel) s diffBit a =
     and_then (get s a) (\<lambda>n.
     case parent n of
       None \<Rightarrow> Inr a
     | Some p \<Rightarrow>
         and_then (get s p) (\<lambda>pn.
         if bits pn \<ge> diffBit then lookup_walkback fuel s diffBit p else Inr a))"

text \<open>The link of the parent of \<open>a\<close> that holds \<open>a\<close> is set to \<open>b\<close>; without a
  parent the root is:
  \<open>if (node->parent == NULL) root = b; else if (node->parent->right == node)
  node->parent->right = b; else node->parent->left = b;\<close>\<close>

definition replace_in_parent :: "addr \<Rightarrow> addr option \<Rightarrow> 'v trie \<Rightarrow> error + 'v trie" where
  "replace_in_parent a b s =
     and_then (get s a) (\<lambda>n.
     case parent n of
       None \<Rightarrow> Inr (s\<lparr>root := b\<rparr>)
     | Some p \<Rightarrow>
         and_then (get s p) (\<lambda>pn.
         if right pn = Some a then upd p (\<lambda>x. x\<lparr>right := b\<rparr>) s
         else upd p (\<lambda>x. x\<lparr>left := b\<rparr>) s))"

text \<open>The rest of \<open>lookupNode\<close>, from "if we are on right node return it".\<close>

definition lookup_place ::
  "byte list \<Rightarrow> bitarray \<Rightarrow> bitarray \<Rightarrow> nat \<Rightarrow> addr \<Rightarrow> 'v trie \<Rightarrow> error + addr \<times> 'v trie" where
  "lookup_place junk k tmpKey diffBit a s =
     (let bitLen = key_size k in
      and_then (get s a) (\<lambda>n.
      if diffBit = bitLen \<and> bits n = bitLen then
        (if key_empty (key n) then
           and_then (upd a (\<lambda>x. x\<lparr>key := k\<rparr>) s) (\<lambda>s1. Inr (a, s1))
         else Inr (a, s))
      else
        let (newNode, s1) = new_node (Node_key k (key_size k)) s;
            s2 = s1\<lparr>numNodes := numNodes s1 + 1\<rparr>
        in
        if bits n = diffBit then
          and_then (upd newNode (\<lambda>x. x\<lparr>parent := Some a\<rparr>) s2) (\<lambda>s3.
          and_then (bit_at k (bits n)) (\<lambda>b.
          and_then (if b then upd a (\<lambda>x. x\<lparr>right := Some newNode\<rparr>) s3
                    else upd a (\<lambda>x. x\<lparr>left := Some newNode\<rparr>) s3) (\<lambda>s4.
          Inr (newNode, s4))))
        else if bitLen = diffBit then
          and_then (bit_at tmpKey bitLen) (\<lambda>b.
          and_then (if b then upd newNode (\<lambda>x. x\<lparr>right := Some a\<rparr>) s2
                    else upd newNode (\<lambda>x. x\<lparr>left := Some a\<rparr>) s2) (\<lambda>s3.
          and_then (upd newNode (\<lambda>x. x\<lparr>parent := parent n\<rparr>) s3) (\<lambda>s4.
          and_then (replace_in_parent a (Some newNode) s4) (\<lambda>s5.
          and_then (upd a (\<lambda>x. x\<lparr>parent := Some newNode\<rparr>) s5) (\<lambda>s6.
          Inr (newNode, s6))))))
        else
          let (glue, s3) = new_node (Node_default junk) s2 in
          and_then (upd glue (\<lambda>x. x\<lparr>bits := diffBit\<rparr>) s3) (\<lambda>s4.
          and_then (upd glue (\<lambda>x. x\<lparr>parent := parent n\<rparr>) s4) (\<lambda>s5.
          let s6 = s5\<lparr>numNodes := numNodes s5 + 1\<rparr> in
          and_then (bit_at k diffBit) (\<lambda>b.
          and_then (if b then upd glue (\<lambda>x. x\<lparr>right := Some newNode, left := Some a\<rparr>) s6
                    else upd glue (\<lambda>x. x\<lparr>right := Some a, left := Some newNode\<rparr>) s6) (\<lambda>s7.
          and_then (upd newNode (\<lambda>x. x\<lparr>parent := Some glue\<rparr>) s7) (\<lambda>s8.
          and_then (replace_in_parent a (Some glue) s8) (\<lambda>s9.
          and_then (upd a (\<lambda>x. x\<lparr>parent := Some glue\<rparr>) s9) (\<lambda>s10.
          Inr (newNode, s10))))))))))"

definition lookupNode :: "byte list \<Rightarrow> bitarray \<Rightarrow> 'v trie \<Rightarrow> error + addr \<times> 'v trie" where
  "lookupNode junk k s =
     (case root s of
        None \<Rightarrow>
          (let (a, s1) = new_node (Node_key k (key_size k)) s in
           Inr (a, s1\<lparr>root := Some a, numNodes := numNodes s1 + 1\<rparr>))
      | Some r \<Rightarrow>
          (let bitLen = key_size k in
           and_then (lookup_descend (length (heap s) + 1) k s r) (\<lambda>t.
           and_then (get s t) (\<lambda>tn.
           let tmpKey = key tn;
               checkBit = (if bits tn < bitLen then bits tn else bitLen)
           in
           and_then (firstDifferentBit k (key tn) checkBit) (\<lambda>diffBit.
           and_then (lookup_walkback (length (heap s) + 1) s diffBit t) (\<lambda>a.
           lookup_place junk k tmpKey diffBit a s))))))"

text \<open>\<open>operator[]\<close> returns a reference to the \<open>data\<close> of the node: the node's
  address here.  \<open>lookupNode\<close> never returns null.  \<open>assign\<close> is the caller's
  assignment through that reference.\<close>

definition subscript :: "byte list \<Rightarrow> bitarray \<Rightarrow> 'v trie \<Rightarrow> error + addr \<times> 'v trie" where
  "subscript junk k s = lookupNode junk k s"

definition assign :: "addr \<Rightarrow> 'v \<Rightarrow> 'v trie \<Rightarrow> error + 'v trie" where
  "assign a v s = upd a (\<lambda>x. x\<lparr>data := Some v\<rparr>) s"

subsection \<open>searchExact and at\<close>

primrec searchExact_loop :: "nat \<Rightarrow> bitarray \<Rightarrow> 'v trie \<Rightarrow> addr \<Rightarrow> error + addr option" where
  "searchExact_loop 0 k s a = Inl Diverges"
| "searchExact_loop (Suc fuel) k s a =
     and_then (get s a) (\<lambda>n.
     if bits n < key_size k then
       and_then (bit_at k (bits n)) (\<lambda>b.
       case (if b then right n else left n) of
         None \<Rightarrow> Inr None
       | Some c \<Rightarrow> searchExact_loop fuel k s c)
     else Inr (Some a))"

definition searchExact :: "bitarray \<Rightarrow> 'v trie \<Rightarrow> error + addr option" where
  "searchExact k s =
     (case root s of
        None \<Rightarrow> Inr None
      | Some r \<Rightarrow>
          and_then (searchExact_loop (length (heap s) + 1) k s r) (\<lambda>found.
          case found of
            None \<Rightarrow> Inr None
          | Some a \<Rightarrow>
              and_then (get s a) (\<lambda>n.
              if bits n > key_size k \<or> key_empty (key n) then Inr None
              else
                and_then (compareBits k (key n) (key_size k)) (\<lambda>c.
                if c then Inr (Some a) else Inr None))))"

definition at :: "bitarray \<Rightarrow> 'v trie \<Rightarrow> error + ('v trie, addr) outcome" where
  "at k s =
     and_then (searchExact k s) (\<lambda>found.
     case found of Some a \<Rightarrow> Inr (Returns a) | None \<Rightarrow> Inr (OutOfRange s))"

subsection \<open>searchBest and best\<close>

definition push :: "nat \<Rightarrow> addr \<Rightarrow> addr list \<Rightarrow> error + addr list" where
  "push N a stack = (if length stack < N * 8 + 1 then Inr (a # stack) else Inl StackOverflow)"

primrec searchBest_loop ::
  "nat \<Rightarrow> nat \<Rightarrow> bitarray \<Rightarrow> 'v trie \<Rightarrow> addr list \<Rightarrow> addr \<Rightarrow> error + addr list \<times> addr option" where
  "searchBest_loop 0 N k s stack a = Inl Diverges"
| "searchBest_loop (Suc fuel) N k s stack a =
     and_then (get s a) (\<lambda>n.
     if bits n < key_size k then
       and_then (if \<not> key_empty (key n) then push N a stack else Inr stack) (\<lambda>stack1.
       and_then (bit_at k (bits n)) (\<lambda>b.
       case (if b then right n else left n) of
         None \<Rightarrow> Inr (stack1, None)
       | Some c \<Rightarrow> searchBest_loop fuel N k s stack1 c))
     else Inr (stack, Some a))"

text \<open>"go through stack are test keys if they are equal"\<close>

primrec searchBest_pop :: "bitarray \<Rightarrow> 'v trie \<Rightarrow> addr list \<Rightarrow> error + addr option" where
  "searchBest_pop k s [] = Inr None"
| "searchBest_pop k s (a # stack) =
     and_then (get s a) (\<lambda>n.
     and_then (compareBits k (key n) (key_size (key n))) (\<lambda>c.
     if c \<and> key_size (key n) \<le> key_size k then Inr (Some a)
     else searchBest_pop k s stack))"

definition searchBest :: "nat \<Rightarrow> bitarray \<Rightarrow> 'v trie \<Rightarrow> error + addr option" where
  "searchBest N k s =
     (case root s of
        None \<Rightarrow> Inr None
      | Some r \<Rightarrow>
          and_then (searchBest_loop (length (heap s) + 1) N k s [] r) (\<lambda>(stack, nd).
          and_then
            (case nd of
               None \<Rightarrow> Inr stack
             | Some a \<Rightarrow>
                 and_then (get s a) (\<lambda>n.
                 if \<not> key_empty (key n) then push N a stack else Inr stack)) (\<lambda>stack1.
          searchBest_pop k s stack1)))"

definition best :: "nat \<Rightarrow> bitarray \<Rightarrow> 'v trie \<Rightarrow> error + ('v trie, addr) outcome" where
  "best N k s =
     and_then (searchBest N k s) (\<lambda>found.
     case found of Some a \<Rightarrow> Inr (Returns a) | None \<Rightarrow> Inr (OutOfRange s))"

subsection \<open>removeNode and erase\<close>

definition removeNode :: "byte list \<Rightarrow> addr \<Rightarrow> 'v trie \<Rightarrow> error + 'v trie" where
  "removeNode junk a s =
     and_then (get s a) (\<lambda>n.
     if right n \<noteq> None \<and> left n \<noteq> None then
       upd a (\<lambda>x. x\<lparr>key := BitArray_default junk\<rparr>) s
     else if right n = None \<and> left n = None then
       (let par = parent n in
        and_then (delete_node a s) (\<lambda>s1.
        let s2 = s1\<lparr>numNodes := decr (numNodes s1)\<rparr> in
        case par of
          None \<Rightarrow> and_then (delete_node a (s2\<lparr>root := None\<rparr>)) Inr
        | Some p \<Rightarrow>
            and_then (get s2 p) (\<lambda>pn.
            and_then (if right pn = Some a
                      then and_then (upd p (\<lambda>x. x\<lparr>right := None\<rparr>) s2) (\<lambda>s3. Inr (left pn, s3))
                      else and_then (upd p (\<lambda>x. x\<lparr>left := None\<rparr>) s2) (\<lambda>s3. Inr (right pn, s3)))
              (\<lambda>(child, s3).
            if \<not> key_empty (key pn) then Inr s3
            else
              and_then (replace_in_parent p child s3) (\<lambda>s4.
              and_then (upd_ptr child (\<lambda>x. x\<lparr>parent := parent pn\<rparr>) s4) (\<lambda>s5.
              and_then (delete_node p s5) (\<lambda>s6.
              Inr (s6\<lparr>numNodes := decr (numNodes s6)\<rparr>))))))))
     else
       (let child = (if right n \<noteq> None then right n else left n);
            par = parent n
        in
        and_then (upd_ptr child (\<lambda>x. x\<lparr>parent := par\<rparr>) s) (\<lambda>s1.
        and_then (delete_node a s1) (\<lambda>s2.
        let s3 = s2\<lparr>numNodes := decr (numNodes s2)\<rparr> in
        case par of
          None \<Rightarrow> Inr (s3\<lparr>root := child\<rparr>)
        | Some p \<Rightarrow>
            and_then (get s3 p) (\<lambda>pn.
            if right pn = Some a then upd p (\<lambda>x. x\<lparr>right := child\<rparr>) s3
            else upd p (\<lambda>x. x\<lparr>left := child\<rparr>) s3)))))"

definition erase :: "byte list \<Rightarrow> bitarray \<Rightarrow> 'v trie \<Rightarrow> error + ('v trie, 'v trie) outcome" where
  "erase junk k s =
     and_then (searchExact k s) (\<lambda>found.
     case found of
       Some a \<Rightarrow> and_then (removeNode junk a s) (\<lambda>s1. Inr (Returns s1))
     | None \<Rightarrow> Inr (OutOfRange s))"


section \<open>The shape of a trie\<close>

text \<open>
  The properties below are stated over the tries a program can build with the
  public operations, and proved through an invariant of the store.  None of the
  definitions of this section is code of the repository.
\<close>

subsection \<open>Keys as lists of bits\<close>

text \<open>The first \<open>n\<close> bits of a key.\<close>

definition pfx :: "bitarray \<Rightarrow> nat \<Rightarrow> bool list" where
  "pfx k n = map (kbit k) [0..<n]"

text \<open>Two keys are the same key when they have the same length and the same bits;
  the bytes behind the last bit do not count.\<close>

definition same_key :: "bitarray \<Rightarrow> bitarray \<Rightarrow> bool" where
  "same_key a b = (bitCount a = bitCount b \<and> (\<forall>i < bitCount a. kbit a i = kbit b i))"

text \<open>A data node is a node whose key is not empty: that is the test of
  \<open>searchExact\<close>, \<open>searchBest\<close> and \<open>removeNode\<close>.  The node at \<open>a\<close> is a data node
  with the key \<open>k\<close>:\<close>

definition holds_key :: "'v trie \<Rightarrow> addr \<Rightarrow> bitarray \<Rightarrow> bool" where
  "holds_key s a k = (\<exists>n. cell s a = Some n \<and> \<not> key_empty (key n) \<and> same_key (key n) k)"

text \<open>The key \<open>k\<close> is a prefix of the key \<open>q\<close>; the node at \<open>a\<close> is a data node whose key
  is a prefix of \<open>q\<close>; and the length of the key of the node at \<open>a\<close>.\<close>

definition is_prefix :: "bitarray \<Rightarrow> bitarray \<Rightarrow> bool" where
  "is_prefix k q = (bitCount k \<le> bitCount q \<and> (\<forall>i < bitCount k. kbit k i = kbit q i))"

definition prefix_node :: "'v trie \<Rightarrow> addr \<Rightarrow> bitarray \<Rightarrow> bool" where
  "prefix_node s a q = (\<exists>n. cell s a = Some n \<and> \<not> key_empty (key n) \<and> is_prefix (key n) q)"

definition key_bits :: "'v trie \<Rightarrow> addr \<Rightarrow> nat" where
  "key_bits s a = (case cell s a of None \<Rightarrow> 0 | Some n \<Rightarrow> bitCount (key n))"

text \<open>The stack of \<open>searchBest\<close> holds data nodes, the deepest on top.\<close>

definition stack_ok :: "'v trie \<Rightarrow> addr list \<Rightarrow> bool" where
  "stack_ok s stack =
     ((\<forall>x \<in> set stack. \<exists>n. cell s x = Some n \<and> \<not> key_empty (key n)) \<and>
      sorted_wrt (\<lambda>x y. key_bits s y < key_bits s x) stack)"

subsection \<open>Links\<close>

text \<open>The child that the walks of \<open>lookupNode\<close>, \<open>searchExact\<close> and \<open>searchBest\<close> take
  at a node, for the key \<open>k\<close>.\<close>

definition next_node :: "bitarray \<Rightarrow> 'v node \<Rightarrow> addr option" where
  "next_node k n = (if kbit k (bits n) then right n else left n)"

definition step :: "bitarray \<Rightarrow> 'v trie \<Rightarrow> addr \<Rightarrow> addr \<Rightarrow> bool" where
  "step k s a c = (\<exists>n. cell s a = Some n \<and> next_node k n = Some c)"

definition cstep :: "'v trie \<Rightarrow> addr \<Rightarrow> addr \<Rightarrow> bool" where
  "cstep s a c = (\<exists>n. cell s a = Some n \<and> (left n = Some c \<or> right n = Some c))"

text \<open>What \<open>removeNode\<close> and \<open>lookupNode\<close> write into the parent of the node \<open>a\<close>.\<close>

definition relink :: "'v node \<Rightarrow> addr \<Rightarrow> addr option \<Rightarrow> 'v node" where
  "relink pn a b = (if right pn = Some a then pn\<lparr>right := b\<rparr> else pn\<lparr>left := b\<rparr>)"

text \<open>The nodes that can still come on a walk down, and on a walk up: the loops
  along the links are given the number of cells plus one as fuel, and these sets
  shrink with every step.\<close>

definition deeper :: "'v trie \<Rightarrow> nat \<Rightarrow> addr set" where
  "deeper s b = {x. \<exists>n. cell s x = Some n \<and> b < bits n}"

definition shallower :: "'v trie \<Rightarrow> nat \<Rightarrow> addr set" where
  "shallower s b = {x. \<exists>n. cell s x = Some n \<and> bits n < b}"

subsection \<open>The invariant\<close>

text \<open>
  \<open>P a\<close> is the list of the bits on the way from the root to the node at \<open>a\<close>; it
  is not part of the store.  A child is deeper than its parent, points back to
  it, and its bits continue the bits of the parent on the side it hangs on.
\<close>

definition child_ok ::
  "'v trie \<Rightarrow> (addr \<Rightarrow> bool list) \<Rightarrow> addr \<Rightarrow> 'v node \<Rightarrow> bool \<Rightarrow> addr option \<Rightarrow> bool" where
  "child_ok s P a n side link =
     (\<forall>c. link = Some c \<longrightarrow>
          (\<exists>cn. cell s c = Some cn \<and> parent cn = Some a \<and> bits n < bits cn \<and>
                take (Suc (bits n)) (P c) = P a @ [side]))"

definition parent_ok :: "'v trie \<Rightarrow> addr \<Rightarrow> 'v node \<Rightarrow> bool" where
  "parent_ok s a n =
     ((parent n = None \<longrightarrow> root s = Some a) \<and>
      (\<forall>p. parent n = Some p \<longrightarrow>
           (\<exists>pn. cell s p = Some pn \<and> (left pn = Some a \<or> right pn = Some a))))"

text \<open>
  A node with a key has the bits of its key on the way to it.  A node with an
  empty key has two children, with one exception: the root at depth 0, which
  is what the insertion of a key of 0 bits leaves.
\<close>

definition key_ok :: "nat \<Rightarrow> (addr \<Rightarrow> bool list) \<Rightarrow> addr \<Rightarrow> 'v node \<Rightarrow> bool" where
  "key_ok N P a n =
     (if key_empty (key n)
      then (left n \<noteq> None \<and> right n \<noteq> None) \<or> (parent n = None \<and> bits n = 0)
      else wf_key N (key n) \<and> bitCount (key n) = bits n \<and> pfx (key n) (bits n) = P a)"

definition node_ok :: "nat \<Rightarrow> 'v trie \<Rightarrow> (addr \<Rightarrow> bool list) \<Rightarrow> addr \<Rightarrow> 'v node \<Rightarrow> bool" where
  "node_ok N s P a n =
     (length (P a) = bits n \<and> bits n \<le> N * 8 \<and> key_ok N P a n \<and>
      child_ok s P a n False (left n) \<and> child_ok s P a n True (right n) \<and> parent_ok s a n)"

definition trie_inv :: "nat \<Rightarrow> (addr \<Rightarrow> bool list) \<Rightarrow> 'v trie \<Rightarrow> bool" where
  "trie_inv N P s =
     (0 < N \<and> numNodes s = card (live s) \<and>
      (root s = None \<longrightarrow> live s = {}) \<and>
      (\<forall>r. root s = Some r \<longrightarrow> (\<exists>rn. cell s r = Some rn \<and> parent rn = None)) \<and>
      (\<forall>a n. cell s a = Some n \<longrightarrow> node_ok N s P a n))"

text \<open>
  Where \<open>lookupNode\<close> stands after its two walks: \<open>a\<close> is the node the walk back
  ends in, \<open>tmpKey\<close> the key of the node the walk down ended in and \<open>d\<close> the first
  different bit.
\<close>

definition place_at ::
  "nat \<Rightarrow> (addr \<Rightarrow> bool list) \<Rightarrow> bitarray \<Rightarrow> 'v trie \<Rightarrow> addr \<Rightarrow> 'v node \<Rightarrow> bitarray \<Rightarrow> nat \<Rightarrow> bool" where
  "place_at N P k s a an tmpKey d =
     (d \<le> bitCount k \<and> d \<le> bits an \<and> take d (P a) = pfx k d \<and>
      (\<forall>p. parent an = Some p \<longrightarrow> (\<exists>pn. cell s p = Some pn \<and> bits pn < d)) \<and>
      (d < bitCount k \<and> d < bits an \<longrightarrow> P a ! d = (\<not> kbit k d)) \<and>
      (d < bitCount k \<and> bits an = d \<longrightarrow> next_node k an = None) \<and>
      (d < bits an \<longrightarrow> wf_key N tmpKey \<and> kbit tmpKey d = P a ! d))"

text \<open>
  What one call of \<open>lookupNode\<close> with the key \<open>k\<close> does to the nodes: the node \<open>b\<close>
  it returns is at the depth of \<open>k\<close> on the way of \<open>k\<close>; the nodes there were keep
  their depth, their payload and their key; no other node gets a key.
\<close>

definition ins_post ::
  "(addr \<Rightarrow> bool list) \<Rightarrow> (addr \<Rightarrow> bool list) \<Rightarrow> bitarray \<Rightarrow> 'v trie \<Rightarrow> addr \<Rightarrow> 'v trie \<Rightarrow> bool" where
  "ins_post P P' k s b s' =
     ((\<exists>bn. cell s' b = Some bn \<and> bits bn = bitCount k \<and> P' b = pfx k (bitCount k) \<and>
            (\<not> key_empty k \<longrightarrow> \<not> key_empty (key bn))) \<and>
      (\<forall>x n. cell s x = Some n \<longrightarrow>
         P' x = P x \<and>
         (\<exists>n'. cell s' x = Some n' \<and> bits n' = bits n \<and> data n' = data n \<and>
               (\<not> key_empty (key n) \<longrightarrow> key n' = key n))) \<and>
      (\<forall>x n'. cell s' x = Some n' \<longrightarrow> x \<noteq> b \<longrightarrow> \<not> key_empty (key n') \<longrightarrow>
         (\<exists>n. cell s x = Some n \<and> key n = key n')))"

subsection \<open>The tries a program can build\<close>

text \<open>
  A program starts from the empty trie of the constructor and calls \<open>operator[]\<close>,
  writes through the reference it got, and calls \<open>erase\<close>; a call that ends in an
  error of the store ends the program.  The keys are objects of the class
  \<open>BitArray<N>\<close>, with \<open>N\<close> bytes and at most \<open>N * 8\<close> bits.
\<close>

inductive reachable :: "nat \<Rightarrow> 'v trie \<Rightarrow> bool" for N :: nat where
  reach_new: "0 < N \<Longrightarrow> reachable N BinaryTrie"
| reach_subscript: "reachable N s \<Longrightarrow> wf_key N k \<Longrightarrow> subscript junk k s = Inr (a, s') \<Longrightarrow>
     reachable N s'"
| reach_assign: "reachable N s \<Longrightarrow> assign a v s = Inr s' \<Longrightarrow> reachable N s'"
| reach_erase: "reachable N s \<Longrightarrow> wf_key N k \<Longrightarrow> erase junk k s = Inr (Returns s') \<Longrightarrow>
     reachable N s'"

text \<open>The loop of \<open>parseInputFile\<close> in main.cpp, \<open>dict[addr] = as\<close> for every line read.\<close>

primrec insert_all :: "byte list \<Rightarrow> (bitarray \<times> 'v) list \<Rightarrow> 'v trie \<Rightarrow> error + 'v trie" where
  "insert_all junk [] s = Inr s"
| "insert_all junk (kv # kvs) s =
     and_then (subscript junk (fst kv) s) (\<lambda>(a, s1).
     and_then (assign a (snd kv) s1) (\<lambda>s2.
     insert_all junk kvs s2))"

section \<open>Properties of BitArray\<close>

subsection \<open>Bits and bytes\<close>

lemma mask_test: "m < 8 \<Longrightarrow> ((p::byte) AND drop_bit m 128 \<noteq> 0) = bit p (7 - m)"
proof -
  assume m: "m < 8"
  have "(128::byte) = 2 ^ 7" by simp
  then have "drop_bit m (128::byte) = 2 ^ (7 - m)"
    using m by (simp only: drop_bit_exp_eq) simp
  then show ?thesis by (simp add: and_exp_eq_0_iff_not_bit)
qed

lemma bit_at_kbit: "i div 8 < length (storage a) \<Longrightarrow> bit_at a i = Inr (kbit a i)"
  by (simp add: bit_at_def byte_at_def kbit_def mask_test Let_def)

lemma clz_below_le: "clz_below r k \<le> k"
  by (induction k) auto

lemma clz_below_zero: "k - clz_below r k \<le> j \<Longrightarrow> j < k \<Longrightarrow> \<not> bit r j"
proof (induction k)
  case 0 then show ?case by simp
next
  case (Suc k)
  then show ?case by (cases "j = k") (auto split: if_splits)
qed

lemma clz_below_one: "clz_below r k < k \<Longrightarrow> bit r (k - 1 - clz_below r k)"
  by (induction k) (auto split: if_splits)

lemma clz_byte:
  fixes r :: "32 word"
  assumes nz: "r \<noteq> 0" and hi: "\<And>j. 8 \<le> j \<Longrightarrow> \<not> bit r j"
  defines "c \<equiv> builtin_clz r - 24"
  shows "c < 8" and "bit r (7 - c)" and "\<And>j. j < c \<Longrightarrow> \<not> bit r (7 - j)"
proof -
  let ?c = "clz_below r 32"
  have le: "?c \<le> 32" by (rule clz_below_le)
  have ne32: "?c \<noteq> 32"
  proof
    assume e: "?c = 32"
    have "\<And>j. j < 32 \<Longrightarrow> \<not> bit r j" using clz_below_zero[of 32 r] e by simp
    then have "r = 0" by (intro bit_eqI) (auto simp: bit_simps dest: bit_imp_le_length)
    with nz show False by simp
  qed
  then have lt: "?c < 32" using le by simp
  have one: "bit r (31 - ?c)" using clz_below_one[OF lt] by simp
  have ge: "24 \<le> ?c"
  proof (rule ccontr)
    assume "\<not> 24 \<le> ?c"
    then have "8 \<le> 31 - ?c" by arith
    from hi[OF this] one show False by simp
  qed
  show "c < 8" using lt ge by (simp add: c_def builtin_clz_def)
  have "31 - ?c = 7 - c" using lt ge by (simp add: c_def builtin_clz_def)
  then show "bit r (7 - c)" using one by simp
  fix j assume "j < c"
  then have "32 - ?c \<le> 7 - j" "7 - j < 32" using lt ge by (auto simp: c_def builtin_clz_def)
  then show "\<not> bit r (7 - j)" using clz_below_zero[of 32 r "7 - j"] by simp
qed


lemma kbit_byte: "j < 8 \<Longrightarrow> kbit a (i * 8 + j) = bit (storage a ! i) (7 - j)"
  by (simp add: kbit_def)

lemma below_byte_split:
  assumes "(j::nat) < (i + 1) * 8" and "\<not> j < i * 8"
  obtains m where "m < 8" and "j = i * 8 + m"
proof -
  from assms have "j - i * 8 < 8" "j = i * 8 + (j - i * 8)" by auto
  then show ?thesis using that by blast
qed

lemma xor_ucast_high:
  fixes x y :: byte
  shows "8 \<le> j \<Longrightarrow> \<not> bit (ucast x XOR ucast y :: 32 word) j"
  by (auto simp: bit_xor_iff bit_ucast_iff dest: bit_imp_le_length)

lemma xor_ucast_low:
  fixes x y :: byte
  shows "j < 8 \<Longrightarrow> bit (ucast x XOR ucast y :: 32 word) j = (bit x j \<noteq> bit y j)"
  by (simp add: bit_xor_iff bit_ucast_iff)

lemma xor_ucast_zero:
  fixes x y :: byte
  shows "((ucast x XOR ucast y :: 32 word) = 0) = (x = y)"
proof
  assume z: "(ucast x XOR ucast y :: 32 word) = 0"
  show "x = y"
  proof (rule bit_eqI)
    fix n assume "possible_bit TYPE(byte) n"
    then have n: "n < 8" by (simp add: possible_bit_def)
    have "\<not> bit (ucast x XOR ucast y :: 32 word) n" using z by simp
    then show "bit x n = bit y n" using n by (simp add: xor_ucast_low)
  qed
next
  assume "x = y" then show "(ucast x XOR ucast y :: 32 word) = 0" by simp
qed

lemma fdb_loop_spec:
  assumes "n \<le> 8 * length (storage a)" and "n \<le> 8 * length (storage b)"
    and "\<forall>j < i * 8. kbit a j = kbit b j" and "result = i * 8"
  shows "\<exists>R. fdb_loop a b n i result = Inr R \<and> (\<forall>j < R. kbit a j = kbit b j) \<and>
           (n \<le> R \<or> kbit a R \<noteq> kbit b R)"
  using assms
proof (induction a b n i result rule: fdb_loop.induct)
  case (1 a other n i result)
  show ?case
  proof (cases "i * 8 < n")
    case False
    then show ?thesis using "1.prems" by (subst fdb_loop.simps) auto
  next
    case True
    then have ia: "i < length (storage a)" and ib: "i < length (storage other)"
      using "1.prems"(1,2) by auto
    let ?x = "storage a ! i" and ?y = "storage other ! i"
    let ?r = "ucast ?x XOR ucast ?y :: 32 word"
    show ?thesis
    proof (cases "?r = 0")
      case z: True
      then have xy: "?x = ?y" by (simp add: xor_ucast_zero)
      have agree: "\<forall>j < (i + 1) * 8. kbit a j = kbit other j"
      proof (intro allI impI)
        fix j assume j: "j < (i + 1) * 8"
        show "kbit a j = kbit other j"
        proof (cases "j < i * 8")
          case True then show ?thesis using "1.prems"(3) by simp
        next
          case False
          from below_byte_split[OF j False] obtain m where "m < 8" "j = i * 8 + m" .
          then show ?thesis using xy by (simp add: kbit_byte)
        qed
      qed
      have "\<exists>R. fdb_loop a other n (i + 1) ((i + 1) * 8) = Inr R \<and>
          (\<forall>j<R. kbit a j = kbit other j) \<and> (n \<le> R \<or> kbit a R \<noteq> kbit other R)"
        using "1.IH"[OF True _ _ refl z "1.prems"(1,2) agree refl] ia ib
        by (simp add: byte_at_def)
      then show ?thesis using True z ia ib
        by (subst fdb_loop.simps) (simp add: byte_at_def)
    next
      case nz: False
      let ?c = "builtin_clz ?r - 24"
      have c8: "?c < 8" and cd: "bit ?r (7 - ?c)" and cz: "\<And>j. j < ?c \<Longrightarrow> \<not> bit ?r (7 - j)"
        using clz_byte[OF nz xor_ucast_high] by blast+
      have res: "fdb_loop a other n i result = Inr (i * 8 + ?c)"
        using True nz ia ib by (subst fdb_loop.simps) (simp add: byte_at_def)
      have agree: "\<forall>j < i * 8 + ?c. kbit a j = kbit other j"
      proof (intro allI impI)
        fix j assume j: "j < i * 8 + ?c"
        show "kbit a j = kbit other j"
        proof (cases "j < i * 8")
          case True then show ?thesis using "1.prems"(3) by simp
        next
          case False
          then have m: "j - i * 8 < ?c" "j = i * 8 + (j - i * 8)" using j by auto
          then have m8: "j - i * 8 < 8" using c8 by simp
          have "\<not> bit ?r (7 - (j - i * 8))" using cz[OF m(1)] .
          then have "bit ?x (7 - (j - i * 8)) = bit ?y (7 - (j - i * 8))"
            by (simp add: xor_ucast_low)
          then show ?thesis using kbit_byte[OF m8, of a i] kbit_byte[OF m8, of other i] m(2)
            by simp
        qed
      qed
      have "bit ?x (7 - ?c) \<noteq> bit ?y (7 - ?c)" using cd by (simp add: xor_ucast_low)
      then have "kbit a (i * 8 + ?c) \<noteq> kbit other (i * 8 + ?c)"
        using c8 by (simp add: kbit_byte)
      then show ?thesis using res agree by simp
    qed
  qed
qed

lemma firstDifferentBit_kbit:
  assumes "n \<le> 8 * length (storage a)" and "n \<le> 8 * length (storage b)"
  shows "\<exists>d. firstDifferentBit a b n = Inr d \<and> d \<le> n \<and> (\<forall>j < d. kbit a j = kbit b j) \<and>
           (d = n \<or> kbit a d \<noteq> kbit b d)"
proof -
  from fdb_loop_spec[OF assms, of 0 0]
  obtain R where R: "fdb_loop a b n 0 0 = Inr R" "\<forall>j < R. kbit a j = kbit b j"
    "n \<le> R \<or> kbit a R \<noteq> kbit b R" by auto
  show ?thesis
  proof (cases "R > n")
    case True
    then show ?thesis using R by (auto simp: firstDifferentBit_def)
  next
    case False
    then show ?thesis using R by (auto simp: firstDifferentBit_def)
  qed
qed


text \<open>
  Claim C4.  For two bit strings \<open>a\<close> and \<open>b\<close> of \<open>N\<close> bytes and a limit of at most
  \<open>N * 8\<close>, \<open>firstDifferentBit\<close> returns a position \<open>d \<le> limit\<close>; \<open>a\<close> and \<open>b\<close> have
  the same bit at every position below \<open>d\<close>; and \<open>d\<close> is the limit or \<open>a\<close> and \<open>b\<close>
  differ in the bit \<open>d\<close>.
\<close>

theorem firstDifferentBit_spec:
  assumes "length (storage a) = N" and "length (storage b) = N" and "limit \<le> N * 8"
  shows "\<exists>d. firstDifferentBit a b limit = Inr d \<and> d \<le> limit \<and>
           (\<forall>i < d. \<exists>v. bit_at a i = Inr v \<and> bit_at b i = Inr v) \<and>
           (d = limit \<or> (\<exists>v. bit_at a d = Inr v \<and> bit_at b d = Inr (\<not> v)))"
proof -
  have la: "limit \<le> 8 * length (storage a)" and lb: "limit \<le> 8 * length (storage b)"
    using assms by auto
  from firstDifferentBit_kbit[OF la lb] obtain d where
    d: "firstDifferentBit a b limit = Inr d" "d \<le> limit" "\<forall>j < d. kbit a j = kbit b j"
       "d = limit \<or> kbit a d \<noteq> kbit b d" by auto
  have inr: "\<And>i c. i < limit \<Longrightarrow> length (storage c) = N \<Longrightarrow> bit_at c i = Inr (kbit c i)"
    using assms(3) by (intro bit_at_kbit) auto
  have 1: "\<forall>i < d. \<exists>v. bit_at a i = Inr v \<and> bit_at b i = Inr v"
    using d(2,3) inr assms(1,2) by auto
  have 2: "d = limit \<or> (\<exists>v. bit_at a d = Inr v \<and> bit_at b d = Inr (\<not> v))"
  proof (cases "d = limit")
    case False
    then have "d < limit" "kbit a d \<noteq> kbit b d" using d by auto
    then show ?thesis using inr[of d a] inr[of d b] assms(1,2) by auto
  qed simp
  show ?thesis using d(1,2) 1 2 by blast
qed

theorem firstDifferentBit_spec_witness:
  "\<exists>d. firstDifferentBit \<lparr>storage = [10, 1, 2, 0], bitCount = 24\<rparr> \<lparr>storage = [10, 1, 3, 4], bitCount = 32\<rparr> 24 = Inr d \<and> d \<le> 24 \<and>
       (\<forall>i < d. \<exists>v. bit_at \<lparr>storage = [10, 1, 2, 0], bitCount = 24\<rparr> i = Inr v \<and> bit_at \<lparr>storage = [10, 1, 3, 4], bitCount = 32\<rparr> i = Inr v) \<and>
       (d = 24 \<or> (\<exists>v. bit_at \<lparr>storage = [10, 1, 2, 0], bitCount = 24\<rparr> d = Inr v \<and> bit_at \<lparr>storage = [10, 1, 3, 4], bitCount = 32\<rparr> d = Inr (\<not> v)))"
  using firstDifferentBit_spec [of "\<lparr>storage = [10, 1, 2, 0], bitCount = 24\<rparr>" 4 "\<lparr>storage = [10, 1, 3, 4], bitCount = 32\<rparr>" 24]
  by simp

subsection \<open>compareBits\<close>

lemma memcmp_spec:
  "n \<le> length xs \<Longrightarrow> n \<le> length ys \<Longrightarrow>
   \<exists>c. memcmp xs ys n = Inr c \<and> (c = 0) = (take n xs = take n ys)"
  by (induction xs ys n rule: memcmp.induct) auto

lemma byte_eq_iff: "((x::byte) = y) = (\<forall>m < 8. bit x (7 - m) = bit y (7 - m))"
proof
  assume r: "\<forall>m < 8. bit x (7 - m) = bit y (7 - m)"
  show "x = y"
  proof (rule bit_eqI)
    fix n assume "possible_bit TYPE(byte) n"
    then have n: "n < 8" by (simp add: possible_bit_def)
    then have "7 - n < 8" "7 - (7 - n) = n" by auto
    with r show "bit x n = bit y n" by metis
  qed
qed simp

lemma all_below_add:
  "(\<forall>i < a + b. P i) = ((\<forall>j < a. P j) \<and> (\<forall>m < b. P (a + m)))" for a b :: nat
proof (intro iffI conjI allI impI)
  fix i assume h: "(\<forall>j < a. P j) \<and> (\<forall>m < b. P (a + m))" and i: "i < a + b"
  show "P i"
  proof (cases "i < a")
    case True then show ?thesis using h by blast
  next
    case False
    then have "i - a < b" "a + (i - a) = i" using i by auto
    then show ?thesis using h by metis
  qed
qed auto

lemma all_below_bytes:
  "(\<forall>i < n. \<forall>m < 8. P (i * 8 + m)) = (\<forall>j < n * 8. P j)" for n :: nat
proof (intro iffI allI impI)
  fix j assume h: "\<forall>i < n. \<forall>m < 8. P (i * 8 + m)" and j: "j < n * 8"
  have "j div 8 < n" "j mod 8 < 8" using j by auto
  then have "P (j div 8 * 8 + j mod 8)" using h by blast
  then show "P j" by simp
next
  fix i m assume h: "\<forall>j < n * 8. P j" and "i < n" "(m::nat) < 8"
  then have "i * 8 + m < n * 8" by auto
  with h show "P (i * 8 + m)" by blast
qed

lemma take_eq_kbit:
  assumes "n \<le> length (storage a)" and "n \<le> length (storage b)"
  shows "(take n (storage a) = take n (storage b)) = (\<forall>j < n * 8. kbit a j = kbit b j)"
proof -
  have "(take n (storage a) = take n (storage b)) = (\<forall>i < n. storage a ! i = storage b ! i)"
    using assms by (auto simp: list_eq_iff_nth_eq)
  also have "\<dots> = (\<forall>i < n. \<forall>m < 8. kbit a (i * 8 + m) = kbit b (i * 8 + m))"
    by (simp add: byte_eq_iff kbit_byte)
  also have "\<dots> = (\<forall>j < n * 8. kbit a j = kbit b j)"
    by (rule all_below_bytes)
  finally show ?thesis .
qed

lemma mask_bits:
  "k \<le> 8 \<Longrightarrow> bit (ucast (NOT (mask k :: 32 word)) :: byte) j = (j < 8 \<and> k \<le> j)"
  by (auto simp: bit_simps)

lemma and_mask_eq_iff:
  fixes x y :: byte
  assumes "0 < offset" and "offset < 8"
  shows "(x AND ucast (push_bit (8 - offset) (NOT 0 :: 32 word)) =
          y AND ucast (push_bit (8 - offset) (NOT 0 :: 32 word))) =
         (\<forall>m < offset. bit x (7 - m) = bit y (7 - m))"
    (is "(?l = ?r) = ?P")
proof
  assume e: "?l = ?r"
  show ?P
  proof (intro allI impI)
    fix m assume m: "m < offset"
    have "bit ?l (7 - m) = bit ?r (7 - m)" using e by simp
    moreover have "8 - offset \<le> 7 - m" "7 - m < 8" using m assms by auto
    ultimately show "bit x (7 - m) = bit y (7 - m)"
      by (simp add: bit_and_iff mask_bits) 
  qed
next
  assume P: ?P
  show "?l = ?r"
  proof (rule bit_eqI)
    fix n assume "possible_bit TYPE(byte) n"
    then have n: "n < 8" by (simp add: possible_bit_def)
    show "bit ?l n = bit ?r n"
    proof (cases "8 - offset \<le> n")
      case True
      then have "7 - n < offset" "7 - (7 - n) = n" using n assms by auto
      with P have "bit x n = bit y n" by metis
      then show ?thesis by (simp add: bit_and_iff)
    next
      case False
      then show ?thesis using assms by (simp add: bit_and_iff mask_bits)
    qed
  qed
qed

lemma compareBits_kbit:
  assumes "wf_key N a" and "wf_key N b"
  shows "compareBits a b nbits =
           Inr (nbits \<le> bitCount a \<and> nbits \<le> bitCount b \<and> (\<forall>i < nbits. kbit a i = kbit b i))"
proof (cases "nbits > bitCount a \<or> nbits > bitCount b")
  case True
  then show ?thesis by (auto simp: compareBits_def)
next
  case False
  define n where "n = nbits div 8"
  define off where "off = nbits mod 8"
  have nbits: "nbits = n * 8 + off" by (simp add: n_def off_def)
  have la: "length (storage a) = N" and lb: "length (storage b) = N" and nb: "nbits \<le> N * 8"
    using assms False by (auto simp: wf_key_def)
  have n: "n \<le> N" using nb by (simp add: n_def)
  from memcmp_spec[of n "storage a" "storage b"] n la lb
  obtain c where c: "memcmp (storage a) (storage b) n = Inr c"
    "(c = 0) = (take n (storage a) = take n (storage b))" by auto
  have whole: "(c = 0) = (\<forall>j < n * 8. kbit a j = kbit b j)"
    using c(2) take_eq_kbit[of n a b] n la lb by simp
  have split: "(\<forall>i < nbits. kbit a i = kbit b i) =
      ((\<forall>j < n * 8. kbit a j = kbit b j) \<and> (\<forall>m < off. kbit a (n * 8 + m) = kbit b (n * 8 + m)))"
    unfolding nbits by (rule all_below_add)
  have unf: "compareBits a b nbits =
      (if c \<noteq> 0 then Inr False
       else if off \<noteq> 0 then
         (case byte_at a n of Inl e \<Rightarrow> Inl e
          | Inr lhsLastByte \<Rightarrow>
             (case byte_at b n of Inl e \<Rightarrow> Inl e
              | Inr rhsLastByte \<Rightarrow>
                 (let mask = (ucast (push_bit (8 - off) (NOT 0 :: 32 word)) :: byte) in
                  if lhsLastByte AND mask \<noteq> rhsLastByte AND mask then Inr False
                  else Inr True)))
       else Inr True)"
    using False c(1) unfolding compareBits_def n_def off_def Let_def by simp
  show ?thesis
  proof (cases "off = 0")
    case True
    then show ?thesis unfolding unf split using whole False by auto
  next
    case o: False
    then have o8: "0 < off" "off < 8" by (auto simp: off_def)
    have "n * 8 < nbits" using o8 nbits by simp
    then have nN: "n < N" using nb by auto
    have last: "(storage a ! n AND ucast (push_bit (8 - off) (NOT 0 :: 32 word)) =
          storage b ! n AND ucast (push_bit (8 - off) (NOT 0 :: 32 word))) =
         (\<forall>m < off. kbit a (n * 8 + m) = kbit b (n * 8 + m))"
      unfolding and_mask_eq_iff[OF o8] using o8 by (simp add: kbit_byte)
    have ba: "byte_at a n = Inr (storage a ! n)" "byte_at b n = Inr (storage b ! n)"
      using nN la lb by (simp_all add: byte_at_def)
    show ?thesis
      unfolding unf split ba sum.case Let_def last using whole False o by auto
  qed
qed


text \<open>
  Claim C5.  \<open>compareBits\<close> on two bit strings and \<open>nbits\<close> returns true if and only
  if both strings hold at least \<open>nbits\<close> bits and they have the same bit at every
  position below \<open>nbits\<close>; no bit of the storage from \<open>nbits\<close> on matters.
\<close>

theorem compareBits_spec:
  assumes "wf_key N a" and "wf_key N b"
  shows "compareBits a b nbits =
           Inr (nbits \<le> bitCount a \<and> nbits \<le> bitCount b \<and>
                (\<forall>i < nbits. \<exists>v. bit_at a i = Inr v \<and> bit_at b i = Inr v))"
proof (cases "nbits \<le> bitCount a \<and> nbits \<le> bitCount b")
  case True
  then have "\<And>i. i < nbits \<Longrightarrow> bit_at a i = Inr (kbit a i) \<and> bit_at b i = Inr (kbit b i)"
    using assms by (auto simp: wf_key_def intro!: bit_at_kbit)
  then have "(\<forall>i < nbits. \<exists>v. bit_at a i = Inr v \<and> bit_at b i = Inr v) =
      (\<forall>i < nbits. kbit a i = kbit b i)" by auto
  then show ?thesis using compareBits_kbit[OF assms, of nbits] by simp
next
  case False
  then show ?thesis using compareBits_kbit[OF assms, of nbits] by auto
qed

theorem compareBits_spec_witness:
  "compareBits \<lparr>storage = [10, 1, 2, 0], bitCount = 24\<rparr> \<lparr>storage = [10, 1, 3, 4], bitCount = 32\<rparr> 23 =
     Inr (23 \<le> bitCount \<lparr>storage = [10, 1, 2, 0], bitCount = 24\<rparr> \<and> 23 \<le> bitCount \<lparr>storage = [10, 1, 3, 4], bitCount = 32\<rparr> \<and>
          (\<forall>i < 23. \<exists>v. bit_at \<lparr>storage = [10, 1, 2, 0], bitCount = 24\<rparr> i = Inr v \<and> bit_at \<lparr>storage = [10, 1, 3, 4], bitCount = 32\<rparr> i = Inr v))"
  using compareBits_spec [of 4 "\<lparr>storage = [10, 1, 2, 0], bitCount = 24\<rparr>" "\<lparr>storage = [10, 1, 3, 4], bitCount = 32\<rparr>" 23]
  by (simp add: wf_key_def)

subsection \<open>operator<\<close>

text \<open>
  Claim C9.  The claim: \<open>a < b\<close> if and only if \<open>a\<close> is shorter, or as long as \<open>b\<close>
  with bytes that come first in the lexicographic order.  \<open>operator<\<close> compares
  with \<open>strncmp\<close>, which stops behind the first zero byte: of the two strings
  \<open>10.0.1.0/32\<close> and \<open>10.0.2.0/32\<close>, which \<open>memcmp\<close> tells apart and which
  \<open>operator==\<close> finds different, neither is less than the other.
\<close>

theorem less_bitarray_stops_at_zero_byte:
  "less_bitarray \<lparr>storage = [10, 0, 1, 0], bitCount = 32\<rparr>
     \<lparr>storage = [10, 0, 2, 0], bitCount = 32\<rparr> = Inr False \<and>
   less_bitarray \<lparr>storage = [10, 0, 2, 0], bitCount = 32\<rparr>
     \<lparr>storage = [10, 0, 1, 0], bitCount = 32\<rparr> = Inr False \<and>
   eq_bitarray \<lparr>storage = [10, 0, 1, 0], bitCount = 32\<rparr>
     \<lparr>storage = [10, 0, 2, 0], bitCount = 32\<rparr> = Inr False \<and>
   memcmp [10, 0, 1, 0] [10, 0, 2, 0] (getByteCount 32) = Inr (- 1)"
  by code_simp

section \<open>The invariant and what follows from it\<close>

subsection \<open>The store\<close>

lemma and_then_Inr [simp]: "and_then (Inr x) f = f x"
  by (simp add: and_then_def)

lemma and_then_Inl [simp]: "and_then (Inl e) f = Inl e"
  by (simp add: and_then_def)

lemma and_then_eq_Inr:
  "(and_then m f = Inr y) = (\<exists>x. m = Inr x \<and> f x = Inr y)"
  by (cases m) auto

lemma cell_Some_less: "cell s a = Some n \<Longrightarrow> a < length (heap s)"
  by (auto simp: cell_def split: if_splits)

lemma cell_fresh [simp]: "cell s (length (heap s)) = None"
  by (simp add: cell_def)

lemma get_Some [simp]: "cell s a = Some n \<Longrightarrow> get s a = Inr n"
  by (simp add: get_def)

lemma get_eq_Inr: "(get s a = Inr n) = (cell s a = Some n)"
  by (auto simp: get_def split: option.splits)

lemma cell_store: "a < length (heap s) \<Longrightarrow> cell (store a n s) = (cell s)(a \<mapsto> n)"
  by (rule ext) (auto simp: cell_def store_def split: if_splits)

lemma root_store [simp]: "root (store a n s) = root s"
  and numNodes_store [simp]: "numNodes (store a n s) = numNodes s"
  and length_heap_store [simp]: "length (heap (store a n s)) = length (heap s)"
  by (simp_all add: store_def)

lemma store_store [simp]: "store a n (store a m s) = store a n s"
  by (simp add: store_def)

lemma upd_Some [simp]: "cell s a = Some n \<Longrightarrow> upd a f s = Inr (store a (f n) s)"
  by (simp add: upd_def)

lemma cell_alloc [simp]: "cell (alloc n s) = (cell s)(length (heap s) \<mapsto> n)"
  by (rule ext) (auto simp: cell_def alloc_def nth_append)

lemma alloc_simps [simp]:
  "root (alloc n s) = root s"
  "numNodes (alloc n s) = numNodes s"
  "length (heap (alloc n s)) = Suc (length (heap s))"
  by (simp_all add: alloc_def)

lemma delete_node_Some: "cell s a = Some n \<Longrightarrow> delete_node a s = Inr (free a s)"
  by (simp add: delete_node_def)

lemma cell_free [simp]: "cell (free a s) = (cell s)(a := None)"
  by (rule ext) (auto simp: cell_def free_def)

lemma free_simps [simp]:
  "root (free a s) = root s"
  "numNodes (free a s) = numNodes s"
  "length (heap (free a s)) = length (heap s)"
  by (simp_all add: free_def)

lemma cell_root_update [simp]: "cell (s\<lparr>root := r\<rparr>) = cell s"
  and cell_numNodes_update [simp]: "cell (s\<lparr>numNodes := m\<rparr>) = cell s"
  by (rule ext, simp add: cell_def)+

lemma store_field_simps [simp]:
  "store a n (s\<lparr>numNodes := m\<rparr>) = (store a n s)\<lparr>numNodes := m\<rparr>"
  "store a n (s\<lparr>root := r\<rparr>) = (store a n s)\<lparr>root := r\<rparr>"
  "alloc n (s\<lparr>numNodes := m\<rparr>) = (alloc n s)\<lparr>numNodes := m\<rparr>"
  "alloc n (s\<lparr>root := r\<rparr>) = (alloc n s)\<lparr>root := r\<rparr>"
  "free a (s\<lparr>numNodes := m\<rparr>) = (free a s)\<lparr>numNodes := m\<rparr>"
  "free a (s\<lparr>root := r\<rparr>) = (free a s)\<lparr>root := r\<rparr>"
  by (simp_all add: store_def alloc_def free_def)

lemma live_finite [simp]: "finite (live s)"
proof -
  have "live s \<subseteq> {..<length (heap s)}"
    by (auto simp: live_def cell_def split: if_splits)
  then show ?thesis by (rule finite_subset) simp
qed

lemma card_live_le: "card (live s) \<le> length (heap s)"
proof -
  have "live s \<subseteq> {..<length (heap s)}"
    by (auto simp: live_def cell_def split: if_splits)
  then have "card (live s) \<le> card {..<length (heap s)}" by (intro card_mono) auto
  then show ?thesis by simp
qed

lemma live_cell_upd: "cell s' = (cell s)(a \<mapsto> n) \<Longrightarrow> live s' = insert a (live s)"
  by (auto simp: live_def)

lemma live_cell_del: "cell s' = (cell s)(a := None) \<Longrightarrow> live s' = live s - {a}"
  by (auto simp: live_def)

subsection \<open>What the invariant says about one node\<close>

lemma inv_node: "trie_inv N P s \<Longrightarrow> cell s a = Some n \<Longrightarrow> node_ok N s P a n"
  by (simp add: trie_inv_def)

lemma inv_left:
  assumes "trie_inv N P s" and "cell s a = Some n" and "left n = Some c"
  shows "\<exists>cn. cell s c = Some cn \<and> parent cn = Some a \<and> bits n < bits cn \<and>
              take (Suc (bits n)) (P c) = P a @ [False]"
  using inv_node[OF assms(1,2)] assms(3) by (simp add: node_ok_def child_ok_def)

lemma inv_right:
  assumes "trie_inv N P s" and "cell s a = Some n" and "right n = Some c"
  shows "\<exists>cn. cell s c = Some cn \<and> parent cn = Some a \<and> bits n < bits cn \<and>
              take (Suc (bits n)) (P c) = P a @ [True]"
  using inv_node[OF assms(1,2)] assms(3) by (simp add: node_ok_def child_ok_def)

lemma inv_step:
  assumes "trie_inv N P s" and "step k s a c"
  shows "\<exists>n cn. cell s a = Some n \<and> cell s c = Some cn \<and> next_node k n = Some c \<and>
           parent cn = Some a \<and> bits n < bits cn \<and>
           take (Suc (bits n)) (P c) = P a @ [kbit k (bits n)]"
proof -
  from assms(2) obtain n where n: "cell s a = Some n" "next_node k n = Some c"
    by (auto simp: step_def)
  show ?thesis
  proof (cases "kbit k (bits n)")
    case True
    then have "right n = Some c" using n(2) by (simp add: next_node_def)
    from inv_right[OF assms(1) n(1) this] show ?thesis using n True by auto
  next
    case False
    then have "left n = Some c" using n(2) by (simp add: next_node_def)
    from inv_left[OF assms(1) n(1) this] show ?thesis using n False by auto
  qed
qed

lemma inv_length: "trie_inv N P s \<Longrightarrow> cell s a = Some n \<Longrightarrow> length (P a) = bits n"
  and inv_bits_le: "trie_inv N P s \<Longrightarrow> cell s a = Some n \<Longrightarrow> bits n \<le> N * 8"
  and inv_key: "trie_inv N P s \<Longrightarrow> cell s a = Some n \<Longrightarrow> key_ok N P a n"
  and inv_parent: "trie_inv N P s \<Longrightarrow> cell s a = Some n \<Longrightarrow> parent_ok s a n"
  by (auto dest!: inv_node simp: node_ok_def)

lemma inv_data:
  assumes "trie_inv N P s" and "cell s a = Some n" and "\<not> key_empty (key n)"
  shows "wf_key N (key n)" and "bitCount (key n) = bits n" and "pfx (key n) (bits n) = P a"
  using inv_key[OF assms(1,2)] assms(3) by (simp_all add: key_ok_def)

lemma inv_glue:
  assumes "trie_inv N P s" and "cell s a = Some n" and "key_empty (key n)"
  shows "(left n \<noteq> None \<and> right n \<noteq> None) \<or> (parent n = None \<and> bits n = 0)"
  using inv_key[OF assms(1,2)] assms(3) by (simp add: key_ok_def)

lemma inv_glue_bits:
  assumes "trie_inv N P s" and "cell s a = Some n" and "key_empty (key n)"
  shows "bits n < N * 8"
proof -
  from inv_glue[OF assms] show ?thesis
  proof
    assume "left n \<noteq> None \<and> right n \<noteq> None"
    then obtain c where "left n = Some c" by auto
    from inv_left[OF assms(1,2) this] obtain cn where
      "cell s c = Some cn" "bits n < bits cn" by auto
    with inv_bits_le[OF assms(1), of c cn] show ?thesis by simp
  next
    assume "parent n = None \<and> bits n = 0"
    moreover have "0 < N" using assms(1) by (simp add: trie_inv_def)
    ultimately show ?thesis by simp
  qed
qed

lemma inv_root:
  assumes "trie_inv N P s" and "root s = Some r"
  shows "\<exists>rn. cell s r = Some rn \<and> parent rn = None"
  using assms by (simp add: trie_inv_def)

lemma inv_parent_Some:
  assumes "trie_inv N P s" and "cell s a = Some n" and "parent n = Some p"
  shows "\<exists>pn. cell s p = Some pn \<and> (left pn = Some a \<or> right pn = Some a) \<and> bits pn < bits n"
proof -
  from inv_parent[OF assms(1,2)] assms(3) obtain pn where
    pn: "cell s p = Some pn" "left pn = Some a \<or> right pn = Some a"
    by (auto simp: parent_ok_def)
  from pn(2) have "bits pn < bits n"
  proof
    assume "left pn = Some a"
    from inv_left[OF assms(1) pn(1) this] assms(2) show ?thesis by auto
  next
    assume "right pn = Some a"
    from inv_right[OF assms(1) pn(1) this] assms(2) show ?thesis by auto
  qed
  with pn show ?thesis by auto
qed

lemma bit_at_wf: "wf_key N k \<Longrightarrow> i < N * 8 \<Longrightarrow> bit_at k i = Inr (kbit k i)"
  by (intro bit_at_kbit) (auto simp: wf_key_def)

subsection \<open>Paths along the bits of a key\<close>

lemma take_Suc_snoc:
  assumes "take (Suc m) xs = ys @ [b]" and "length ys = m"
  shows "take m xs = ys" and "xs ! m = b" and "m < length xs"
proof -
  have len: "m < length xs"
  proof (rule ccontr)
    assume "\<not> m < length xs"
    then have "length (take (Suc m) xs) \<le> m" by simp
    then show False using assms by simp
  qed
  then show "m < length xs" .
  have "take (Suc m) xs = take m xs @ [xs ! m]" using len by (simp add: take_Suc_conv_app_nth)
  then have "take m xs @ [xs ! m] = ys @ [b]" using assms(1) by simp
  then show "take m xs = ys" and "xs ! m = b" by auto
qed

lemma desc_props:
  assumes inv: "trie_inv N P s"
  shows "(step k s)\<^sup>*\<^sup>* a b \<Longrightarrow> cell s a = Some na \<Longrightarrow>
         \<exists>nb. cell s b = Some nb \<and> bits na \<le> bits nb \<and> take (bits na) (P b) = P a \<and>
              (a \<noteq> b \<longrightarrow> bits na < bits nb \<and> P b ! bits na = kbit k (bits na))"
proof (induction arbitrary: na rule: converse_rtranclp_induct)
  case base
  then show ?case using inv_length[OF inv base] by auto
next
  case (step a c)
  from inv_step[OF inv step.hyps(1)] step.prems obtain cn where
    c: "cell s c = Some cn" "bits na < bits cn" "take (Suc (bits na)) (P c) = P a @ [kbit k (bits na)]"
    by auto
  from step.IH[OF c(1)] obtain nb where
    b: "cell s b = Some nb" "bits cn \<le> bits nb" "take (bits cn) (P b) = P c" by auto
  have la: "length (P a) = bits na" using inv_length[OF inv step.prems] .
  note sn = take_Suc_snoc[OF c(3) la]
  have "take (bits na) (P b) = take (bits na) (take (bits cn) (P b))"
    using c(2) by (simp add: min_def)
  also have "\<dots> = P a" using b(3) sn(1) by simp
  finally have 1: "take (bits na) (P b) = P a" .
  have "P b ! bits na = take (bits cn) (P b) ! bits na" using c(2) by simp
  also have "\<dots> = kbit k (bits na)" using b(3) sn(2) by simp
  finally have 2: "P b ! bits na = kbit k (bits na)" .
  show ?case using b(1,2) c(2) 1 2 by auto
qed

lemma desc_cell:
  assumes inv: "trie_inv N P s" and "(step k s)\<^sup>*\<^sup>* a b" and "cell s a = Some na"
  shows "\<exists>nb. cell s b = Some nb"
  using desc_props[OF assms] by auto

subsection \<open>Fuel\<close>

lemma deeper_live: "deeper s b \<subseteq> live s" and shallower_live: "shallower s b \<subseteq> live s"
  by (auto simp: deeper_def shallower_def live_def)

lemma deeper_finite [simp]: "finite (deeper s b)" and shallower_finite [simp]: "finite (shallower s b)"
  using deeper_live shallower_live by (metis finite_subset live_finite)+

lemma deeper_fuel: "card (deeper s b) < length (heap s) + 1"
proof -
  have "card (deeper s b) \<le> card (live s)" by (intro card_mono deeper_live) simp
  then show ?thesis using card_live_le[of s] by simp
qed

lemma shallower_fuel: "card (shallower s b) < length (heap s) + 1"
proof -
  have "card (shallower s b) \<le> card (live s)" by (intro card_mono shallower_live) simp
  then show ?thesis using card_live_le[of s] by simp
qed

lemma deeper_less:
  assumes "cell s c = Some cn" and "b < bits cn"
  shows "card (deeper s (bits cn)) < card (deeper s b)"
proof (rule psubset_card_mono)
  show "finite (deeper s b)" by simp
  have "c \<in> deeper s b" "c \<notin> deeper s (bits cn)" using assms by (auto simp: deeper_def)
  moreover have "deeper s (bits cn) \<subseteq> deeper s b" using assms(2) by (auto simp: deeper_def)
  ultimately show "deeper s (bits cn) \<subset> deeper s b" by auto
qed

lemma shallower_less:
  assumes "cell s c = Some cn" and "bits cn < b"
  shows "card (shallower s (bits cn)) < card (shallower s b)"
proof (rule psubset_card_mono)
  show "finite (shallower s b)" by simp
  have "c \<in> shallower s b" "c \<notin> shallower s (bits cn)" using assms by (auto simp: shallower_def)
  moreover have "shallower s (bits cn) \<subseteq> shallower s b" using assms(2) by (auto simp: shallower_def)
  ultimately show "shallower s (bits cn) \<subset> shallower s b" by auto
qed

subsection \<open>The walk down of lookupNode\<close>

lemma lookup_descend_spec:
  assumes inv: "trie_inv N P s" and k: "wf_key N k"
  shows "cell s a = Some na \<Longrightarrow> card (deeper s (bits na)) < fuel \<Longrightarrow>
     \<exists>t tn. lookup_descend fuel k s a = Inr t \<and> (step k s)\<^sup>*\<^sup>* a t \<and> cell s t = Some tn \<and>
       (bits tn < key_size k \<or> key_empty (key tn) \<longrightarrow> next_node k tn = None)"
proof (induction fuel arbitrary: a na)
  case 0
  then show ?case by simp
next
  case (Suc fuel)
  show ?case
  proof (cases "bits na < key_size k \<or> key_empty (key na)")
    case False
    then show ?thesis using Suc.prems(1) by auto
  next
    case True
    have "bits na < N * 8"
      using True k inv_glue_bits[OF inv Suc.prems(1)] by (auto simp: key_size_def wf_key_def)
    then have bit: "bit_at k (bits na) = Inr (kbit k (bits na))" by (rule bit_at_wf[OF k])
    show ?thesis
    proof (cases "next_node k na")
      case None
      then have "lookup_descend (Suc fuel) k s a = Inr a"
        using True Suc.prems(1) bit by (auto simp: next_node_def)
      then show ?thesis using Suc.prems(1) None by auto
    next
      case (Some c)
      then have st: "step k s a c" using Suc.prems(1) by (auto simp: step_def)
      from inv_step[OF inv st] Suc.prems(1) obtain cn where
        c: "cell s c = Some cn" "bits na < bits cn" by auto
      have "card (deeper s (bits cn)) < fuel"
        using deeper_less[OF c] Suc.prems(2) by simp
      from Suc.IH[OF c(1) this] obtain t tn where
        t: "lookup_descend fuel k s c = Inr t" "(step k s)\<^sup>*\<^sup>* c t" "cell s t = Some tn"
           "bits tn < key_size k \<or> key_empty (key tn) \<longrightarrow> next_node k tn = None" by blast
      have "lookup_descend (Suc fuel) k s a = Inr t"
        using True Suc.prems(1) bit Some t(1) by (auto simp: next_node_def)
      moreover have "(step k s)\<^sup>*\<^sup>* a t" using st t(2) by (rule converse_rtranclp_into_rtranclp)
      ultimately show ?thesis using t(3,4) by blast
    qed
  qed
qed

subsection \<open>The walk back up of lookupNode\<close>

lemma step_parent:
  assumes inv: "trie_inv N P s" and "step k s x a" and "cell s a = Some an"
  shows "parent an = Some x"
  using inv_step[OF inv assms(2)] assms(3) by auto

lemma desc_last:
  assumes inv: "trie_inv N P s" and "(step k s)\<^sup>*\<^sup>* r a" and "cell s a = Some an"
    and "parent an = Some p" and "cell s r = Some rn" and "parent rn = None"
  shows "(step k s)\<^sup>*\<^sup>* r p \<and> step k s p a"
  using assms(2)
proof (cases rule: rtranclp.cases)
  case rtrancl_refl
  then show ?thesis using assms by auto
next
  case (rtrancl_into_rtrancl x)
  from step_parent[OF inv rtrancl_into_rtrancl(2) assms(3)] assms(4) have "x = p" by simp
  then show ?thesis using rtrancl_into_rtrancl by simp
qed

lemma lookup_walkback_spec:
  assumes inv: "trie_inv N P s" and r: "cell s r = Some rn" "parent rn = None"
  shows "(step k s)\<^sup>*\<^sup>* r a \<Longrightarrow> (step k s)\<^sup>*\<^sup>* a t \<Longrightarrow> cell s a = Some an \<Longrightarrow> d \<le> bits an \<Longrightarrow>
     card (shallower s (bits an)) < fuel \<Longrightarrow>
     \<exists>b bn. lookup_walkback fuel s d a = Inr b \<and> (step k s)\<^sup>*\<^sup>* r b \<and> (step k s)\<^sup>*\<^sup>* b t \<and>
        cell s b = Some bn \<and> d \<le> bits bn \<and>
        (\<forall>p. parent bn = Some p \<longrightarrow> (\<exists>pn. cell s p = Some pn \<and> bits pn < d))"
proof (induction fuel arbitrary: a an)
  case 0
  then show ?case by simp
next
  case (Suc fuel)
  show ?case
  proof (cases "parent an")
    case None
    then have "lookup_walkback (Suc fuel) s d a = Inr a" using Suc.prems(3) by simp
    then show ?thesis using Suc.prems None by auto
  next
    case (Some p)
    from inv_parent_Some[OF inv Suc.prems(3) Some] obtain pn where
      pn: "cell s p = Some pn" "bits pn < bits an" by auto
    show ?thesis
    proof (cases "d \<le> bits pn")
      case False
      then have "lookup_walkback (Suc fuel) s d a = Inr a"
        using Suc.prems(3) Some pn(1) by simp
      then show ?thesis using Suc.prems Some pn False by auto
    next
      case True
      from desc_last[OF inv Suc.prems(1,3) Some r] have
        up: "(step k s)\<^sup>*\<^sup>* r p" "step k s p a" by auto
      have down: "(step k s)\<^sup>*\<^sup>* p t"
        using up(2) Suc.prems(2) by (rule converse_rtranclp_into_rtranclp)
      have "card (shallower s (bits pn)) < fuel"
        using shallower_less[OF pn] Suc.prems(5) by simp
      from Suc.IH[OF up(1) down pn(1) True this] obtain b bn where
        b: "lookup_walkback fuel s d p = Inr b" "(step k s)\<^sup>*\<^sup>* r b" "(step k s)\<^sup>*\<^sup>* b t"
           "cell s b = Some bn" "d \<le> bits bn"
           "\<forall>p. parent bn = Some p \<longrightarrow> (\<exists>pn. cell s p = Some pn \<and> bits pn < d)" by blast
      have "lookup_walkback (Suc fuel) s d a = Inr b"
        using Suc.prems(3) Some pn(1) True b(1) by simp
      then show ?thesis using b by blast
    qed
  qed
qed

subsection \<open>Where lookupNode places the key\<close>

lemma pfx_length [simp]: "length (pfx k n) = n"
  by (simp add: pfx_def)

lemma pfx_nth [simp]: "i < n \<Longrightarrow> pfx k n ! i = kbit k i"
  by (simp add: pfx_def)

lemma take_pfx [simp]: "take m (pfx k n) = pfx k (min m n)"
  by (simp add: pfx_def take_map min_def)

lemma pfx_eq_iff: "(pfx k n = pfx k' n) = (\<forall>i < n. kbit k i = kbit k' i)"
  by (auto simp: pfx_def list_eq_iff_nth_eq)

lemma pfx_Suc: "pfx k (Suc n) = pfx k n @ [kbit k n]"
  by (simp add: pfx_def)

lemma list_eq_take_pfx:
  assumes "m \<le> length xs" and "\<forall>i < m. xs ! i = kbit k i"
  shows "take m xs = pfx k m"
  using assms by (auto simp: list_eq_iff_nth_eq)

lemma lookup_position:
  assumes inv: "trie_inv N P s" and k: "wf_key N k" and root: "root s = Some r"
  shows "\<exists>t tn d a an.
     lookup_descend (length (heap s) + 1) k s r = Inr t \<and> cell s t = Some tn \<and>
     firstDifferentBit k (key tn) (if bits tn < key_size k then bits tn else key_size k) = Inr d \<and>
     lookup_walkback (length (heap s) + 1) s d t = Inr a \<and> cell s a = Some an \<and>
     place_at N P k s a an (key tn) d"
proof -
  from inv_root[OF inv root] obtain rn where rn: "cell s r = Some rn" "parent rn = None" by auto
  from lookup_descend_spec[OF inv k rn(1) deeper_fuel] obtain t tn where
    t: "lookup_descend (length (heap s) + 1) k s r = Inr t" "(step k s)\<^sup>*\<^sup>* r t"
       "cell s t = Some tn"
       "bits tn < key_size k \<or> key_empty (key tn) \<longrightarrow> next_node k tn = None" by blast
  define c where "c = (if bits tn < key_size k then bits tn else key_size k)"
  have c_le: "c \<le> bits tn" "c \<le> bitCount k" by (auto simp: c_def key_size_def)
  have kN: "length (storage k) = N" "bitCount k \<le> N * 8" using k by (auto simp: wf_key_def)
  \<comment> \<open>the terminal node holds a key, or it is a root of 0 bits\<close>
  have tcase: "(\<not> key_empty (key tn) \<and> wf_key N (key tn) \<and> P t = pfx (key tn) (bits tn)) \<or>
              (key_empty (key tn) \<and> bits tn = 0)"
  proof (cases "key_empty (key tn)")
    case False
    then show ?thesis using inv_data[OF inv t(3)] by simp
  next
    case True
    then have "next_node k tn = None" using t(4) by simp
    then have "\<not> (left tn \<noteq> None \<and> right tn \<noteq> None)" by (auto simp: next_node_def split: if_splits)
    then show ?thesis using inv_glue[OF inv t(3) True] True by auto
  qed
  have c_len: "c \<le> 8 * length (storage k)" "c \<le> 8 * length (storage (key tn))"
    using tcase c_le kN by (auto simp: wf_key_def)
  from firstDifferentBit_kbit[OF c_len] obtain d where
    d: "firstDifferentBit k (key tn) c = Inr d" "d \<le> c" "\<forall>j < d. kbit k j = kbit (key tn) j"
       "d = c \<or> kbit k d \<noteq> kbit (key tn) d" by blast
  have lt: "length (P t) = bits tn" by (rule inv_length[OF inv t(3)])
  have Pt: "\<forall>j < d. P t ! j = kbit k j" using tcase d(2,3) c_le by auto
  have takePt: "take d (P t) = pfx k d"
    using d(2) c_le lt Pt by (intro list_eq_take_pfx) auto
  have "d \<le> bits tn" using d(2) c_le by simp
  from lookup_walkback_spec[OF inv rn t(2) rtranclp.rtrancl_refl t(3) this shallower_fuel]
  obtain a an where
    a: "lookup_walkback (length (heap s) + 1) s d t = Inr a" "(step k s)\<^sup>*\<^sup>* r a"
       "(step k s)\<^sup>*\<^sup>* a t" "cell s a = Some an" "d \<le> bits an"
       "\<forall>p. parent an = Some p \<longrightarrow> (\<exists>pn. cell s p = Some pn \<and> bits pn < d)" by blast
  from desc_props[OF inv a(3,4)] t(3) have
    adesc: "bits an \<le> bits tn" "take (bits an) (P t) = P a"
        "a \<noteq> t \<longrightarrow> bits an < bits tn \<and> P t ! bits an = kbit k (bits an)" by auto
  have "take d (P a) = take d (take (bits an) (P t))" using adesc(2) by simp
  also have "\<dots> = take d (P t)" using a(5) by (simp add: min_def)
  finally have 1: "take d (P a) = pfx k d" using takePt by simp
  have nth: "\<And>i. i < bits an \<Longrightarrow> P a ! i = P t ! i"
    using adesc(2) by (metis nth_take)
  have diff: "d < bitCount k \<Longrightarrow> d < bits tn \<Longrightarrow>
      \<not> key_empty (key tn) \<and> kbit (key tn) d = (\<not> kbit k d) \<and> P t ! d = kbit (key tn) d"
  proof -
    assume "d < bitCount k" "d < bits tn"
    then have "d \<noteq> c" by (auto simp: c_def key_size_def)
    then have "kbit k d \<noteq> kbit (key tn) d" using d(4) by simp
    moreover have ne: "\<not> key_empty (key tn)" using tcase \<open>d < bits tn\<close> by auto
    moreover have "P t ! d = kbit (key tn) d" using tcase ne \<open>d < bits tn\<close> by auto
    ultimately show ?thesis by auto
  qed
  have 2: "d < bitCount k \<and> d < bits an \<longrightarrow> P a ! d = (\<not> kbit k d)"
    using diff nth adesc(1) by auto
  have 3: "d < bitCount k \<and> bits an = d \<longrightarrow> next_node k an = None"
  proof (intro impI, elim conjE)
    assume h: "d < bitCount k" "bits an = d"
    show "next_node k an = None"
    proof (cases "a = t")
      case True
      then show ?thesis using t(3,4) a(4) h by (simp add: key_size_def)
    next
      case False
      then have "bits an < bits tn" "P t ! d = kbit k d" using adesc(3) h by auto
      then show ?thesis using diff h by auto
    qed
  qed
  have 4: "d < bits an \<longrightarrow> wf_key N (key tn) \<and> kbit (key tn) d = P a ! d"
  proof
    assume h: "d < bits an"
    then have "d < bits tn" using adesc(1) by simp
    then have "\<not> key_empty (key tn)" "P t = pfx (key tn) (bits tn)" "wf_key N (key tn)"
      using tcase by auto
    then show "wf_key N (key tn) \<and> kbit (key tn) d = P a ! d" using nth[OF h] \<open>d < bits tn\<close> by simp
  qed
  have "place_at N P k s a an (key tn) d"
    unfolding place_at_def using d(2) c_le a(5,6) 1 2 3 4 by auto
  then show ?thesis using t(1,3) d(1) a(1,4) unfolding c_def by blast
qed

lemmas store_eval = upd_def get_def cell_store cell_Some_less

lemma place_exact_data:
  assumes "cell s a = Some an" and "d = key_size k" and "bits an = key_size k"
    and "\<not> key_empty (key an)"
  shows "lookup_place junk k tmpKey d a s = Inr (a, s)"
  using assms by (simp add: lookup_place_def)

lemma place_exact_glue:
  assumes "cell s a = Some an" and "d = key_size k" and "bits an = key_size k"
    and "key_empty (key an)"
  shows "lookup_place junk k tmpKey d a s = Inr (a, store a (an\<lparr>key := k\<rparr>) s)"
  using assms by (simp add: lookup_place_def)

lemma place_below:
  assumes a: "cell s a = Some an" and "\<not> (d = key_size k \<and> bits an = key_size k)"
    and "bits an = d" and bit: "bit_at k d = Inr b"
  shows "\<exists>s'. lookup_place junk k tmpKey d a s = Inr (length (heap s), s') \<and>
     cell s' = (cell s)(length (heap s) \<mapsto> (Node_key k (key_size k))\<lparr>parent := Some a\<rparr>,
                     a \<mapsto> (if b then an\<lparr>right := Some (length (heap s))\<rparr>
                            else an\<lparr>left := Some (length (heap s))\<rparr>)) \<and>
     root s' = root s \<and> numNodes s' = numNodes s + 1 \<and> length (heap s') = length (heap s) + 1"
proof -
  have al: "a < length (heap s)" "a \<noteq> length (heap s)" using cell_Some_less[OF a] by auto
  show ?thesis
    using assms al
    by (cases b) (simp_all add: lookup_place_def new_node_def Let_def upd_def get_def cell_store)
qed

subsection \<open>Nodes that an insertion does not touch\<close>

lemma node_ok_unchanged:
  assumes ok: "node_ok N s P x n"
    and P: "\<And>y m. cell s y = Some m \<Longrightarrow> P' y = P y"
    and cellx: "cell s x = Some n"
    and kids: "\<And>c cn. cell s c = Some cn \<Longrightarrow> parent cn = Some x \<Longrightarrow>
        \<exists>cn'. cell s' c = Some cn' \<and> parent cn' = Some x \<and> bits cn' = bits cn"
    and par: "\<And>p pn. cell s p = Some pn \<Longrightarrow> parent n = Some p \<Longrightarrow>
        \<exists>pn'. cell s' p = Some pn' \<and> (left pn = Some x \<longrightarrow> left pn' = Some x) \<and>
              (right pn = Some x \<longrightarrow> right pn' = Some x)"
    and rt: "root s = Some x \<Longrightarrow> root s' = Some x"
  shows "node_ok N s' P' x n"
proof -
  have Px: "P' x = P x" using P[OF cellx] .
  have child: "child_ok s' P' x n side link" if "child_ok s P x n side link" for side link
  proof (cases link)
    case None then show ?thesis by (simp add: child_ok_def)
  next
    case (Some c)
    with that obtain cn where cn: "cell s c = Some cn" "parent cn = Some x" "bits n < bits cn"
      "take (Suc (bits n)) (P c) = P x @ [side]" by (auto simp: child_ok_def)
    from kids[OF cn(1,2)] obtain cn' where
      "cell s' c = Some cn'" "parent cn' = Some x" "bits cn' = bits cn" by auto
    then show ?thesis using cn Some Px P[OF cn(1)] by (auto simp: child_ok_def)
  qed
  have "parent_ok s' x n"
  proof (cases "parent n")
    case None
    then show ?thesis using ok rt by (auto simp: node_ok_def parent_ok_def)
  next
    case (Some p)
    with ok obtain pn where pn: "cell s p = Some pn" "left pn = Some x \<or> right pn = Some x"
      by (auto simp: node_ok_def parent_ok_def)
    from par[OF pn(1) Some] pn(2) show ?thesis using Some by (auto simp: parent_ok_def)
  qed
  moreover have "key_ok N P' x n" using ok Px by (auto simp: node_ok_def key_ok_def)
  ultimately show ?thesis using ok Px child by (simp add: node_ok_def)
qed

lemma inv_child_parent:
  assumes inv: "trie_inv N P s" and "cell s x = Some n" and "left n = Some c \<or> right n = Some c"
  shows "\<exists>cn. cell s c = Some cn \<and> parent cn = Some x \<and> bits n < bits cn"
  using assms(3) inv_left[OF inv assms(2)] inv_right[OF inv assms(2)] by auto

lemma inv_neq_child:
  assumes inv: "trie_inv N P s" and "cell s x = Some n" and "left n = Some c \<or> right n = Some c"
  shows "c \<noteq> x"
  using inv_child_parent[OF assms] assms(2) by auto

lemma inv_left_right_neq:
  assumes inv: "trie_inv N P s" and "cell s x = Some n" and "left n = Some c"
  shows "right n \<noteq> Some c"
proof
  assume "right n = Some c"
  from inv_left[OF inv assms(2,3)] inv_right[OF inv assms(2) this]
  show False by auto
qed

subsection \<open>An exact hit\<close>

lemma trie_inv_store_key:
  assumes inv: "trie_inv N P s" and a: "cell s a = Some an" and k: "wf_key N k"
    and glue: "key_empty (key an)" and bits: "bits an = bitCount k" and P: "P a = pfx k (bitCount k)"
  shows "trie_inv N P (store a (an\<lparr>key := k\<rparr>) s)"
proof -
  let ?s' = "store a (an\<lparr>key := k\<rparr>) s"
  have c: "cell ?s' = (cell s)(a \<mapsto> an\<lparr>key := k\<rparr>)"
    using cell_Some_less[OF a] by (simp add: cell_store)
  have live: "live ?s' = live s" using a by (auto simp: live_def c)
  have nodes: "node_ok N ?s' P x n" if x: "cell ?s' x = Some n" for x n
  proof (cases "x = a")
    case False
    then have xs: "cell s x = Some n" using x by (simp add: c)
    show ?thesis
    proof (rule node_ok_unchanged[OF inv_node[OF inv xs] refl xs])
      fix c' cn assume "cell s c' = Some cn" "parent cn = Some x"
      then show "\<exists>cn'. cell ?s' c' = Some cn' \<and> parent cn' = Some x \<and> bits cn' = bits cn"
        using a by (auto simp: c)
    next
      fix p pn assume "cell s p = Some pn" "parent n = Some p"
      then show "\<exists>pn'. cell ?s' p = Some pn' \<and> (left pn = Some x \<longrightarrow> left pn' = Some x) \<and>
              (right pn = Some x \<longrightarrow> right pn' = Some x)"
        using a by (auto simp: c)
    qed simp
  next
    case True
    then have n: "n = an\<lparr>key := k\<rparr>" using x by (simp add: c)
    have ok: "node_ok N s P a an" by (rule inv_node[OF inv a])
    have "node_ok N ?s' P a an"
    proof (rule node_ok_unchanged[OF ok refl a])
      fix c' cn assume "cell s c' = Some cn" "parent cn = Some a"
      then show "\<exists>cn'. cell ?s' c' = Some cn' \<and> parent cn' = Some a \<and> bits cn' = bits cn"
        using a by (auto simp: c)
    next
      fix p pn assume "cell s p = Some pn" "parent an = Some p"
      then show "\<exists>pn'. cell ?s' p = Some pn' \<and> (left pn = Some a \<longrightarrow> left pn' = Some a) \<and>
              (right pn = Some a \<longrightarrow> right pn' = Some a)"
        using a inv_parent_Some[OF inv a] by (auto simp: c)
    qed simp
    moreover have "key_ok N P a (an\<lparr>key := k\<rparr>)"
      using inv_glue[OF inv a glue] k bits P by (auto simp: key_ok_def)
    ultimately show ?thesis
      unfolding True n by (simp add: node_ok_def child_ok_def parent_ok_def)
  qed
  have "\<forall>r. root ?s' = Some r \<longrightarrow> (\<exists>rn. cell ?s' r = Some rn \<and> parent rn = None)"
    using inv a by (auto simp: trie_inv_def c)
  then show ?thesis using inv nodes live by (simp add: trie_inv_def)
qed

lemma pfx_take_Suc:
  "d < n \<Longrightarrow> take (Suc d) (pfx k n) = pfx k d @ [kbit k d]"
  by (simp add: min_def pfx_Suc)

lemma card_live_insert:
  assumes "cell s' = (cell s)(x \<mapsto> n)" and "cell s x = None"
  shows "card (live s') = card (live s) + 1"
proof -
  have "live s' = insert x (live s)" using assms(1) by (rule live_cell_upd)
  moreover have "x \<notin> live s" using assms(2) by (simp add: live_def)
  ultimately show ?thesis by simp
qed

subsection \<open>The new node below the node found\<close>

lemma trie_inv_below:
  assumes inv: "trie_inv N P s" and a: "cell s a = Some an" and k: "wf_key N k"
    and lt: "bits an < bitCount k" and Pa: "P a = pfx k (bits an)"
    and slot: "next_node k an = None"
    and new: "new = length (heap s)"
    and c: "cell s' = (cell s)(new \<mapsto> (Node_key k (key_size k))\<lparr>parent := Some a\<rparr>,
                     a \<mapsto> (if kbit k (bits an) then an\<lparr>right := Some new\<rparr>
                            else an\<lparr>left := Some new\<rparr>))"
    and rt: "root s' = root s" and num: "numNodes s' = numNodes s + 1"
  shows "trie_inv N (P(new := pfx k (bitCount k))) s'"
proof -
  let ?P = "P(new := pfx k (bitCount k))"
  let ?nn = "(Node_key k (key_size k))\<lparr>parent := Some a\<rparr> :: 'a node"
  let ?an = "if kbit k (bits an) then an\<lparr>right := Some new\<rparr> else an\<lparr>left := Some new\<rparr>"
  have fresh: "cell s new = None" by (simp add: new)
  have na: "new \<noteq> a" using a fresh by auto
  have Pold: "\<And>y m. cell s y = Some m \<Longrightarrow> ?P y = P y" using fresh by auto
  have cnew: "cell s' new = Some ?nn" using na by (simp add: c)
  have ca: "cell s' a = Some ?an" by (simp add: c)
  have cother: "\<And>x. x \<noteq> new \<Longrightarrow> x \<noteq> a \<Longrightarrow> cell s' x = cell s x" by (simp add: c)
  have kb: "bitCount k \<le> N * 8" "0 < bitCount k" using k lt by (auto simp: wf_key_def)
  \<comment> \<open>the old nodes, seen in the new state\<close>
  have old: "node_ok N s' ?P x n" if xs: "cell s x = Some n" for x n
  proof (rule node_ok_unchanged[OF inv_node[OF inv xs] Pold xs])
    fix c' cn assume h: "cell s c' = Some cn" "parent cn = Some x"
    then have "c' \<noteq> new" using fresh by auto
    then show "\<exists>cn'. cell s' c' = Some cn' \<and> parent cn' = Some x \<and> bits cn' = bits cn"
      using h a ca cother[of c'] by (cases "c' = a") auto
  next
    fix p pn assume h: "cell s p = Some pn" "parent n = Some p"
    then have pn: "p \<noteq> new" using fresh by auto
    show "\<exists>pn'. cell s' p = Some pn' \<and> (left pn = Some x \<longrightarrow> left pn' = Some x) \<and>
              (right pn = Some x \<longrightarrow> right pn' = Some x)"
    proof (cases "p = a")
      case False
      then show ?thesis using h pn cother[of p] by auto
    next
      case True
      then have "pn = an" using h a by simp
      then show ?thesis using True ca slot by (auto simp: next_node_def split: if_splits)
    qed
  next
    show "root s = Some x \<Longrightarrow> root s' = Some x" using rt by simp
  qed
  have oka: "node_ok N s' ?P a an" by (rule old[OF a])
  have sub: "take (Suc (bits an)) (?P new) = ?P a @ [kbit k (bits an)]"
    using na Pa lt by (simp add: min_def pfx_Suc)
  have link: "child_ok s' ?P a an (kbit k (bits an)) (Some new)"
    using cnew sub lt by (simp add: child_ok_def Node_key_def key_size_def)
  have glue: "key_empty (key an) \<longrightarrow> parent an = None \<and> bits an = 0"
    using inv_glue[OF inv a] slot by (auto simp: next_node_def split: if_splits)
  have okan: "node_ok N s' ?P a ?an"
  proof (cases "kbit k (bits an)")
    case True
    have "key_ok N ?P a (an\<lparr>right := Some new\<rparr>)"
      using oka glue by (auto simp: node_ok_def key_ok_def)
    then show ?thesis using oka link True
      by (simp add: node_ok_def child_ok_def parent_ok_def)
  next
    case False
    have "key_ok N ?P a (an\<lparr>left := Some new\<rparr>)"
      using oka glue by (auto simp: node_ok_def key_ok_def)
    then show ?thesis using oka link False
      by (simp add: node_ok_def child_ok_def parent_ok_def)
  qed
  have oknew: "node_ok N s' ?P new ?nn"
    using k kb ca
    by (auto simp: node_ok_def key_ok_def child_ok_def parent_ok_def Node_key_def key_size_def
        key_empty_def)
  have nodes: "\<forall>x n. cell s' x = Some n \<longrightarrow> node_ok N s' ?P x n"
  proof (intro allI impI)
    fix x n assume x: "cell s' x = Some n"
    show "node_ok N s' ?P x n"
    proof (cases "x = new")
      case True then show ?thesis using x cnew oknew by simp
    next
      case xn: False
      show ?thesis
      proof (cases "x = a")
        case True then show ?thesis using x ca okan by simp
      next
        case False
        then show ?thesis using x cother[OF xn False] old by simp
      qed
    qed
  qed
  have c2: "cell s' = (cell s)(a \<mapsto> ?an, new \<mapsto> ?nn)" using na c by (simp add: fun_upd_twist)
  have "live s' = insert new (live s)" using a na by (auto simp: live_def c)
  moreover have "new \<notin> live s" using fresh by (simp add: live_def)
  ultimately have card: "card (live s') = card (live s) + 1" by simp
  have root: "\<forall>r. root s' = Some r \<longrightarrow> (\<exists>rn. cell s' r = Some rn \<and> parent rn = None)"
  proof (intro allI impI)
    fix r assume "root s' = Some r"
    then have "root s = Some r" using rt by simp
    from inv_root[OF inv this] obtain rn where rn: "cell s r = Some rn" "parent rn = None" by auto
    have "r \<noteq> new" using rn fresh by auto
    then show "\<exists>rn. cell s' r = Some rn \<and> parent rn = None"
      using rn a ca cother[of r] by (cases "r = a") auto
  qed
  have "root s' = None \<longrightarrow> live s' = {}"
    using inv a rt by (auto simp: trie_inv_def live_def)
  then show ?thesis using inv nodes card num root by (simp add: trie_inv_def)
qed

subsection \<open>A node spliced in above the node found\<close>

lemma take_take_le: "i \<le> j \<Longrightarrow> take i (take j xs) = take i xs"
  by (simp add: min_def)

lemma splice_nodes_ok:
  fixes s s' :: "'v trie"
  assumes inv: "trie_inv N P s" and a: "cell s a = Some an"
    and d: "d < bits an" "d \<le> N * 8"
    and above: "\<And>p. parent an = Some p \<Longrightarrow> \<exists>pn. cell s p = Some pn \<and> bits pn < d"
    and Pold: "\<And>y n. cell s y = Some n \<Longrightarrow> P' y = P y"
    and Pm: "P' m = take d (P a)"
    and fresh: "cell s m = None" "\<And>l. other = Some l \<Longrightarrow> cell s l = None \<and> l \<noteq> m"
    and mn: "bits mn = d" "parent mn = parent an" "key_ok N P' m mn"
      "if P a ! d then right mn = Some a \<and> left mn = other
       else left mn = Some a \<and> right mn = other"
    and leaf: "\<And>l. other = Some l \<Longrightarrow>
        \<exists>ln. cell s' l = Some ln \<and> node_ok N s' P' l ln \<and> parent ln = Some m \<and> d < bits ln \<and>
             take (Suc d) (P' l) = take d (P a) @ [\<not> P a ! d]"
    and cm: "cell s' m = Some mn"
    and ca: "cell s' a = Some (an\<lparr>parent := Some m\<rparr>)"
    and cp: "\<And>p pn. parent an = Some p \<Longrightarrow> cell s p = Some pn \<Longrightarrow>
        cell s' p = Some (relink pn a (Some m))"
    and co: "\<And>x. x \<noteq> m \<Longrightarrow> x \<noteq> a \<Longrightarrow> Some x \<noteq> parent an \<Longrightarrow> Some x \<noteq> other \<Longrightarrow>
        cell s' x = cell s x"
    and rt: "root s' = (if parent an = None then Some m else root s)"
  shows "(\<forall>x n. cell s' x = Some n \<longrightarrow> node_ok N s' P' x n) \<and>
         (\<forall>r. root s' = Some r \<longrightarrow> (\<exists>rn. cell s' r = Some rn \<and> parent rn = None))"
proof -
  have ma: "m \<noteq> a" using a fresh(1) by auto
  have oka: "node_ok N s P a an" by (rule inv_node[OF inv a])
  have la: "length (P a) = bits an" using oka by (simp add: node_ok_def)
  have not_fresh: "\<And>x n. cell s x = Some n \<Longrightarrow> x \<noteq> m \<and> Some x \<noteq> other"
    using fresh by auto
  \<comment> \<open>the parent of \<open>a\<close>\<close>
  have par: "\<exists>pn. cell s p = Some pn \<and> bits pn < d \<and> p \<noteq> a \<and>
        (left pn = Some a \<or> right pn = Some a) \<and> cell s' p = Some (relink pn a (Some m))"
    if "parent an = Some p" for p
  proof -
    from above[OF that] obtain pn where pn: "cell s p = Some pn" "bits pn < d" by auto
    from inv_parent_Some[OF inv a that] pn(1) have "left pn = Some a \<or> right pn = Some a" by auto
    moreover have "p \<noteq> a" using pn a d by auto
    ultimately show ?thesis using pn cp[OF that pn(1)] by auto
  qed
  have keep: "cell s' x = cell s x" if "cell s x = Some n" "x \<noteq> a" "Some x \<noteq> parent an" for x n
    using co[of x] not_fresh[OF that(1)] that by auto
  \<comment> \<open>the nodes away from the place\<close>
  have away: "node_ok N s' P' x n" if xs: "cell s x = Some n" and xa: "x \<noteq> a"
    and xp: "Some x \<noteq> parent an" for x n
  proof (rule node_ok_unchanged[OF inv_node[OF inv xs] Pold xs])
    fix c cn assume h: "cell s c = Some cn" "parent cn = Some x"
    have "c \<noteq> a" using h a xp by auto
    show "\<exists>cn'. cell s' c = Some cn' \<and> parent cn' = Some x \<and> bits cn' = bits cn"
    proof (cases "Some c = parent an")
      case True
      from par[OF True[symmetric]] h show ?thesis by (auto simp: relink_def)
    next
      case False
      then show ?thesis using keep[OF h(1) \<open>c \<noteq> a\<close> False] h by simp
    qed
  next
    fix q qn assume h: "cell s q = Some qn" "parent n = Some q"
    show "\<exists>qn'. cell s' q = Some qn' \<and> (left qn = Some x \<longrightarrow> left qn' = Some x) \<and>
              (right qn = Some x \<longrightarrow> right qn' = Some x)"
    proof (cases "q = a")
      case True
      then show ?thesis using h a ca by auto
    next
      case qa: False
      show ?thesis
      proof (cases "Some q = parent an")
        case True
        from par[OF True[symmetric]] h xa show ?thesis by (auto simp: relink_def)
      next
        case False
        then show ?thesis using keep[OF h(1) qa False] h by simp
      qed
    qed
  next
    assume "root s = Some x"
    moreover have "parent an = None \<longrightarrow> root s = Some a" using oka by (simp add: node_ok_def parent_ok_def)
    ultimately show "root s' = Some x" using rt xa by auto
  qed
  \<comment> \<open>the node \<open>a\<close>\<close>
  have okm_a: "left mn = Some a \<or> right mn = Some a" using mn(4) by (auto split: if_splits)
  have oka': "node_ok N s' P' a (an\<lparr>parent := Some m\<rparr>)"
  proof -
    have kid: "child_ok s' P' a an side link" if "child_ok s P a an side link"
      "link = left an \<or> link = right an" for side link
      unfolding child_ok_def
    proof (intro allI impI)
      fix c assume l: "link = Some c"
      with that(1) obtain cn where cn: "cell s c = Some cn" "parent cn = Some a" "bits an < bits cn"
        "take (Suc (bits an)) (P c) = P a @ [side]" by (auto simp: child_ok_def)
      have "c \<noteq> a" using cn a by auto
      moreover have "Some c \<noteq> parent an"
      proof
        assume "Some c = parent an"
        from par[OF this[symmetric]] cn d show False by auto
      qed
      ultimately have "cell s' c = Some cn" using keep[OF cn(1)] cn(1) by simp
      then show "\<exists>cn. cell s' c = Some cn \<and> parent cn = Some a \<and> bits an < bits cn \<and>
          take (Suc (bits an)) (P' c) = P' a @ [side]"
        using cn Pold[OF cn(1)] Pold[OF a] by auto
    qed
    have "key_ok N P' a (an\<lparr>parent := Some m\<rparr>)"
      using oka d Pold[OF a] by (auto simp: node_ok_def key_ok_def)
    moreover have "parent_ok s' a (an\<lparr>parent := Some m\<rparr>)"
      using cm okm_a by (simp add: parent_ok_def)
    ultimately show ?thesis
      using oka Pold[OF a] kid[of False "left an"] kid[of True "right an"]
      by (simp add: node_ok_def child_ok_def)
  qed
  \<comment> \<open>the parent of \<open>a\<close>\<close>
  have okp: "node_ok N s' P' p (relink pn a (Some m))"
    if pa: "parent an = Some p" and ps: "cell s p = Some pn" for p pn
  proof -
    from par[OF pa] ps have pn: "bits pn < d" "p \<noteq> a" "left pn = Some a \<or> right pn = Some a"
      by auto
    have okpn: "node_ok N s P p pn" by (rule inv_node[OF inv ps])
    have lp: "length (P p) = bits pn" using okpn by (simp add: node_ok_def)
    have pp: "P' p = P p" by (rule Pold[OF ps])
    \<comment> \<open>the link to \<open>m\<close>\<close>
    have tom: "child_ok s' P' p pn side (Some m)" if "child_ok s P p pn side (Some a)" for side
    proof -
      from that a have "take (Suc (bits pn)) (P a) = P p @ [side]" by (auto simp: child_ok_def)
      moreover have "take (Suc (bits pn)) (P' m) = take (Suc (bits pn)) (P a)"
        using pn(1) by (simp add: Pm take_take_le)
      ultimately show ?thesis using cm mn(1,2) pa pn(1) pp by (simp add: child_ok_def)
    qed
    \<comment> \<open>the other link\<close>
    have other: "child_ok s' P' p pn side link" if "child_ok s P p pn side link" "link \<noteq> Some a"
      for side link
      unfolding child_ok_def
    proof (intro allI impI)
      fix c assume l: "link = Some c"
      with that(1) obtain cn where cn: "cell s c = Some cn" "parent cn = Some p" "bits pn < bits cn"
        "take (Suc (bits pn)) (P c) = P p @ [side]" by (auto simp: child_ok_def)
      have "c \<noteq> a" using l that(2) by auto
      moreover have "Some c \<noteq> parent an" using pa cn ps by auto
      ultimately have "cell s' c = Some cn" using keep[OF cn(1)] cn(1) by simp
      then show "\<exists>cn. cell s' c = Some cn \<and> parent cn = Some p \<and> bits pn < bits cn \<and>
          take (Suc (bits pn)) (P' c) = P' p @ [side]"
        using cn Pold[OF cn(1)] pp by auto
    qed
    have up: "parent_ok s' p pn"
      unfolding parent_ok_def
    proof (intro conjI allI impI)
      assume "parent pn = None"
      then have "root s = Some p" using okpn by (simp add: node_ok_def parent_ok_def)
      then show "root s' = Some p" using rt pa by simp
    next
      fix q assume q: "parent pn = Some q"
      from inv_parent_Some[OF inv ps q] obtain qn where
        qn: "cell s q = Some qn" "left qn = Some p \<or> right qn = Some p" "bits qn < bits pn" by auto
      have "q \<noteq> a" using qn a pn d by auto
      moreover have "Some q \<noteq> parent an" using pa qn ps by auto
      ultimately have "cell s' q = Some qn" using keep[OF qn(1)] qn(1) by simp
      then show "\<exists>qn. cell s' q = Some qn \<and> (left qn = Some p \<or> right qn = Some p)"
        using qn by auto
    qed
    have lr: "left pn = Some a \<Longrightarrow> right pn \<noteq> Some a"
      using inv_left_right_neq[OF inv ps] by auto
    show ?thesis
    proof (cases "right pn = Some a")
      case True
      then have l: "left pn \<noteq> Some a" using lr by auto
      have "key_ok N P' p (pn\<lparr>right := Some m\<rparr>)"
        using okpn pp by (auto simp: node_ok_def key_ok_def)
      then show ?thesis
        using True okpn pp up tom[of True] other[of False "left pn"] l
        by (simp add: relink_def node_ok_def child_ok_def parent_ok_def)
    next
      case False
      then have l: "left pn = Some a" using pn(3) by simp
      have "key_ok N P' p (pn\<lparr>left := Some m\<rparr>)"
        using okpn pp by (auto simp: node_ok_def key_ok_def)
      then show ?thesis
        using False l okpn pp up tom[of False] other[of True "right pn"]
        by (simp add: relink_def node_ok_def child_ok_def parent_ok_def)
    qed
  qed
  \<comment> \<open>the node \<open>m\<close>\<close>
  have okm: "node_ok N s' P' m mn"
  proof -
    have toa: "child_ok s' P' m mn (P a ! d) (Some a)"
    proof -
      have "take (Suc d) (P a) = take d (P a) @ [P a ! d]"
        using d(1) la by (simp add: take_Suc_conv_app_nth)
      then show ?thesis using ca mn(1) d(1) Pm Pold[OF a] by (simp add: child_ok_def)
    qed
    have tol: "child_ok s' P' m mn (\<not> P a ! d) other"
      unfolding child_ok_def
    proof (intro allI impI)
      fix l assume "other = Some l"
      from leaf[OF this] show "\<exists>cn. cell s' l = Some cn \<and> parent cn = Some m \<and> bits mn < bits cn \<and>
          take (Suc (bits mn)) (P' l) = P' m @ [\<not> P a ! d]"
        using mn(1) Pm by auto
    qed
    have up: "parent_ok s' m mn"
      unfolding parent_ok_def
    proof (intro conjI allI impI)
      assume "parent mn = None" then show "root s' = Some m" using rt mn(2) by simp
    next
      fix p assume "parent mn = Some p"
      then have pa: "parent an = Some p" using mn(2) by simp
      from par[OF pa] show "\<exists>pn. cell s' p = Some pn \<and> (left pn = Some m \<or> right pn = Some m)"
        by (auto simp: relink_def)
    qed
    have "length (P' m) = d" using Pm d(1) la by simp
    then show ?thesis
      using mn d(2) toa tol up
      by (cases "P a ! d") (simp_all add: node_ok_def)
  qed
  have nodes: "\<forall>x n. cell s' x = Some n \<longrightarrow> node_ok N s' P' x n"
  proof (intro allI impI)
    fix x n assume x: "cell s' x = Some n"
    consider "x = m" | "x = a" | "Some x = parent an" | "Some x = other"
      | "x \<noteq> m" "x \<noteq> a" "Some x \<noteq> parent an" "Some x \<noteq> other" by blast
    then show "node_ok N s' P' x n"
    proof cases
      case 1 then show ?thesis using x cm okm by simp
    next
      case 2 then show ?thesis using x ca oka' by simp
    next
      case 3
      from par[OF 3[symmetric]] obtain pn where "cell s x = Some pn"
        "cell s' x = Some (relink pn a (Some m))" by auto
      then show ?thesis using okp[OF 3[symmetric]] x by simp
    next
      case 4
      from leaf[OF 4[symmetric]] x show ?thesis by auto
    next
      case 5
      then have "cell s x = Some n" using co[of x] x by simp
      then show ?thesis using away 5 by simp
    qed
  qed
  have root: "\<forall>r. root s' = Some r \<longrightarrow> (\<exists>rn. cell s' r = Some rn \<and> parent rn = None)"
  proof (intro allI impI)
    fix r assume r: "root s' = Some r"
    show "\<exists>rn. cell s' r = Some rn \<and> parent rn = None"
    proof (cases "parent an")
      case None
      then show ?thesis using r rt cm mn(2) by simp
    next
      case (Some p)
      then have "root s = Some r" using r rt by simp
      from inv_root[OF inv this] obtain rn where rn: "cell s r = Some rn" "parent rn = None" by auto
      have ra: "r \<noteq> a" using rn a Some by auto
      show ?thesis
      proof (cases "r = p")
        case True
        from par[OF Some] True rn show ?thesis by (auto simp: relink_def)
      next
        case False
        then have "cell s' r = cell s r" using keep[OF rn(1) ra] Some by simp
        then show ?thesis using rn by simp
      qed
    qed
  qed
  show ?thesis using nodes root by simp
qed

lemma replace_in_parent_eval:
  assumes "cell s a = Some an"
    and "\<And>p. parent an = Some p \<Longrightarrow> p \<noteq> a \<and> cell s p \<noteq> None"
  shows "\<exists>s'. replace_in_parent a b s = Inr s' \<and>
      (\<forall>p pn. parent an = Some p \<longrightarrow> cell s p = Some pn \<longrightarrow> cell s' p = Some (relink pn a b)) \<and>
      (\<forall>x. Some x \<noteq> parent an \<longrightarrow> cell s' x = cell s x) \<and>
      root s' = (if parent an = None then b else root s) \<and>
      numNodes s' = numNodes s \<and> length (heap s') = length (heap s)"
proof (cases "parent an")
  case None
  then show ?thesis using assms(1) by (simp add: replace_in_parent_def)
next
  case (Some p)
  from assms(2)[OF Some] obtain pn where pn: "p \<noteq> a" "cell s p = Some pn" by auto
  have pl: "p < length (heap s)" by (rule cell_Some_less[OF pn(2)])
  show ?thesis
    using Some assms(1) pn pl
    by (auto simp: replace_in_parent_def relink_def upd_def cell_store)
qed

lemma place_above:
  assumes a: "cell s a = Some an" and "\<not> (d = key_size k \<and> bits an = key_size k)"
    and "bits an \<noteq> d" and "key_size k = d" and bit: "bit_at tmpKey d = Inr b"
    and par: "\<And>p. parent an = Some p \<Longrightarrow> p \<noteq> a \<and> cell s p \<noteq> None"
  shows "\<exists>s'. lookup_place junk k tmpKey d a s = Inr (length (heap s), s') \<and>
     cell s' (length (heap s)) =
       Some (if b then (Node_key k (key_size k))\<lparr>right := Some a, parent := parent an\<rparr>
             else (Node_key k (key_size k))\<lparr>left := Some a, parent := parent an\<rparr>) \<and>
     cell s' a = Some (an\<lparr>parent := Some (length (heap s))\<rparr>) \<and>
     (\<forall>p pn. parent an = Some p \<longrightarrow> cell s p = Some pn \<longrightarrow>
         cell s' p = Some (relink pn a (Some (length (heap s))))) \<and>
     (\<forall>x. x \<noteq> length (heap s) \<longrightarrow> x \<noteq> a \<longrightarrow> Some x \<noteq> parent an \<longrightarrow> cell s' x = cell s x) \<and>
     root s' = (if parent an = None then Some (length (heap s)) else root s) \<and>
     numNodes s' = numNodes s + 1 \<and> length (heap s') = length (heap s) + 1"
proof -
  let ?new = "length (heap s)"
  define nn :: "'a node" where
    "nn = (if b then (Node_key k (key_size k))\<lparr>right := Some a, parent := parent an\<rparr>
             else (Node_key k (key_size k))\<lparr>left := Some a, parent := parent an\<rparr>)"
  let ?nn = nn
  let ?s4 = "store ?new ?nn ((alloc (Node_key k (key_size k)) s)\<lparr>numNodes := numNodes s + 1\<rparr>)"
  have al: "a < ?new" "a \<noteq> ?new" using cell_Some_less[OF a] by auto
  have c4: "cell ?s4 = (cell s)(?new \<mapsto> ?nn)" by (simp add: cell_store)
  have a4: "cell ?s4 a = Some an" using a al unfolding c4 by simp
  have par4: "\<And>p. parent an = Some p \<Longrightarrow> p \<noteq> a \<and> cell ?s4 p \<noteq> None"
    using par unfolding c4 by auto
  from replace_in_parent_eval[OF a4 par4, of "Some ?new"] obtain s5 where
    s5: "replace_in_parent a (Some ?new) ?s4 = Inr s5"
      "\<forall>p pn. parent an = Some p \<longrightarrow> cell ?s4 p = Some pn \<longrightarrow>
          cell s5 p = Some (relink pn a (Some ?new))"
      "\<forall>x. Some x \<noteq> parent an \<longrightarrow> cell s5 x = cell ?s4 x"
      "root s5 = (if parent an = None then Some ?new else root ?s4)"
      "numNodes s5 = numNodes ?s4" "length (heap s5) = length (heap ?s4)" by blast
  have pnew: "Some ?new \<noteq> parent an"
  proof
    assume "Some ?new = parent an"
    from par[OF this[symmetric]] show False by (simp add: cell_def)
  qed
  have pa: "Some a \<noteq> parent an"
  proof
    assume "Some a = parent an"
    from par[OF this[symmetric]] show False by simp
  qed
  have a5: "cell s5 a = Some an" using s5(3) pa a4 by simp
  have eval: "lookup_place junk k tmpKey d a s = Inr (?new, store a (an\<lparr>parent := Some ?new\<rparr>) s5)"
    using assms(1-5) al s5(1) a5
    by (cases b) (simp_all add: lookup_place_def new_node_def Let_def upd_def get_def cell_store nn_def)
  let ?s' = "store a (an\<lparr>parent := Some ?new\<rparr>) s5"
  have c': "cell ?s' = (cell s5)(a \<mapsto> an\<lparr>parent := Some ?new\<rparr>)"
    using al s5(6) by (simp add: cell_store)
  have 1: "cell ?s' ?new = Some ?nn" using al pnew s5(3) unfolding c' c4 by simp
  have 2: "cell ?s' a = Some (an\<lparr>parent := Some ?new\<rparr>)" by (simp add: c')
  have 3: "\<forall>p pn. parent an = Some p \<longrightarrow> cell s p = Some pn \<longrightarrow>
         cell ?s' p = Some (relink pn a (Some ?new))"
    using s5(2) par pnew unfolding c' c4 by auto
  have 4: "\<forall>x. x \<noteq> ?new \<longrightarrow> x \<noteq> a \<longrightarrow> Some x \<noteq> parent an \<longrightarrow> cell ?s' x = cell s x"
    using s5(3) unfolding c' c4 by simp
  show ?thesis using eval 1 2 3 4 s5(4,5,6) unfolding nn_def by simp
qed

lemma place_fork:
  assumes a: "cell s a = Some an" and "\<not> (d = key_size k \<and> bits an = key_size k)"
    and "bits an \<noteq> d" and "key_size k \<noteq> d" and bit: "bit_at k d = Inr b"
    and par: "\<And>p. parent an = Some p \<Longrightarrow> p \<noteq> a \<and> cell s p \<noteq> None"
  shows "\<exists>s'. lookup_place junk k tmpKey d a s = Inr (length (heap s), s') \<and>
     cell s' (length (heap s)) =
       Some ((Node_key k (key_size k))\<lparr>parent := Some (Suc (length (heap s)))\<rparr>) \<and>
     cell s' (Suc (length (heap s))) =
       Some (if b then (Node_default junk)\<lparr>bits := d, parent := parent an,
                         right := Some (length (heap s)), left := Some a\<rparr>
             else (Node_default junk)\<lparr>bits := d, parent := parent an,
                         right := Some a, left := Some (length (heap s))\<rparr>) \<and>
     cell s' a = Some (an\<lparr>parent := Some (Suc (length (heap s)))\<rparr>) \<and>
     (\<forall>p pn. parent an = Some p \<longrightarrow> cell s p = Some pn \<longrightarrow>
         cell s' p = Some (relink pn a (Some (Suc (length (heap s)))))) \<and>
     (\<forall>x. x \<noteq> length (heap s) \<longrightarrow> x \<noteq> Suc (length (heap s)) \<longrightarrow> x \<noteq> a \<longrightarrow>
          Some x \<noteq> parent an \<longrightarrow> cell s' x = cell s x) \<and>
     root s' = (if parent an = None then Some (Suc (length (heap s))) else root s) \<and>
     numNodes s' = numNodes s + 2 \<and> length (heap s') = length (heap s) + 2"
proof -
  let ?new = "length (heap s)"
  let ?glue = "Suc (length (heap s))"
  let ?nn = "(Node_key k (key_size k))\<lparr>parent := Some ?glue\<rparr> :: 'a node"
  define gn :: "'a node" where
    "gn = (if b then (Node_default junk)\<lparr>bits := d, parent := parent an,
                         right := Some ?new, left := Some a\<rparr>
             else (Node_default junk)\<lparr>bits := d, parent := parent an,
                         right := Some a, left := Some ?new\<rparr>)"
  let ?gn = gn
  let ?s8 = "store ?new ?nn (store ?glue ?gn
      ((alloc (Node_default junk) (alloc (Node_key k (key_size k)) s))\<lparr>numNodes := numNodes s + 2\<rparr>))"
  have al: "a < ?new" "a \<noteq> ?new" "a \<noteq> ?glue" using cell_Some_less[OF a] by auto
  have c8: "cell ?s8 = (cell s)(?glue \<mapsto> ?gn, ?new \<mapsto> ?nn)"
    by (simp add: cell_store)
  have a8: "cell ?s8 a = Some an" using a al unfolding c8 by simp
  have par8: "\<And>p. parent an = Some p \<Longrightarrow> p \<noteq> a \<and> cell ?s8 p \<noteq> None"
    using par unfolding c8 by auto
  from replace_in_parent_eval[OF a8 par8, of "Some ?glue"] obtain s9 where
    s9: "replace_in_parent a (Some ?glue) ?s8 = Inr s9"
      "\<forall>p pn. parent an = Some p \<longrightarrow> cell ?s8 p = Some pn \<longrightarrow>
          cell s9 p = Some (relink pn a (Some ?glue))"
      "\<forall>x. Some x \<noteq> parent an \<longrightarrow> cell s9 x = cell ?s8 x"
      "root s9 = (if parent an = None then Some ?glue else root ?s8)"
      "numNodes s9 = numNodes ?s8" "length (heap s9) = length (heap ?s8)" by blast
  have pnew: "Some ?new \<noteq> parent an" "Some ?glue \<noteq> parent an"
  proof -
    show "Some ?new \<noteq> parent an"
    proof
      assume "Some ?new = parent an"
      from par[OF this[symmetric]] show False by (simp add: cell_def)
    qed
    show "Some ?glue \<noteq> parent an"
    proof
      assume "Some ?glue = parent an"
      from par[OF this[symmetric]] show False by (simp add: cell_def)
    qed
  qed
  have pa: "Some a \<noteq> parent an"
  proof
    assume "Some a = parent an"
    from par[OF this[symmetric]] show False by simp
  qed
  have a9: "cell s9 a = Some an" using s9(3) pa a8 by simp
  have eval: "lookup_place junk k tmpKey d a s = Inr (?new, store a (an\<lparr>parent := Some ?glue\<rparr>) s9)"
    using assms(1-5) al s9(1) a9
    by (cases b)
      (simp_all add: lookup_place_def new_node_def Let_def upd_def get_def cell_store gn_def)
  let ?s' = "store a (an\<lparr>parent := Some ?glue\<rparr>) s9"
  have c': "cell ?s' = (cell s9)(a \<mapsto> an\<lparr>parent := Some ?glue\<rparr>)"
    using al s9(6) by (simp add: cell_store)
  have 1: "cell ?s' ?new = Some ?nn" using al pnew s9(3) unfolding c' c8 by simp
  have g1: "cell ?s' ?glue = Some ?gn" using al pnew s9(3) unfolding c' c8 by simp
  have 2: "cell ?s' a = Some (an\<lparr>parent := Some ?glue\<rparr>)" by (simp add: c')
  have 3: "\<forall>p pn. parent an = Some p \<longrightarrow> cell s p = Some pn \<longrightarrow>
         cell ?s' p = Some (relink pn a (Some ?glue))"
    using s9(2) par pnew unfolding c' c8 by auto
  have 4: "\<forall>x. x \<noteq> ?new \<longrightarrow> x \<noteq> ?glue \<longrightarrow> x \<noteq> a \<longrightarrow> Some x \<noteq> parent an \<longrightarrow> cell ?s' x = cell s x"
    using s9(3) unfolding c' c8 by simp
  show ?thesis using eval 1 g1 2 3 4 s9(4,5,6) unfolding gn_def by simp
qed

lemma take_all_eq: "length xs = d \<Longrightarrow> take d xs = ys \<Longrightarrow> xs = ys"
  by auto

lemma insert_first:
  assumes inv: "trie_inv N P s" and k: "wf_key N k" and root: "root s = None"
  shows "\<exists>b s' P'. lookupNode junk k s = Inr (b, s') \<and> trie_inv N P' s' \<and> ins_post P P' k s b s'"
proof -
  let ?new = "length (heap s)"
  let ?nn = "Node_key k (key_size k) :: 'a node"
  let ?s' = "(alloc ?nn s)\<lparr>root := Some ?new, numNodes := numNodes s + 1\<rparr>"
  let ?P = "P(?new := pfx k (bitCount k))"
  have eval: "lookupNode junk k s = Inr (?new, ?s')"
    using root by (simp add: lookupNode_def new_node_def)
  have empty: "\<And>x. cell s x = None" using inv root by (auto simp: trie_inv_def live_def)
  have c: "cell ?s' = (cell s)(?new \<mapsto> ?nn)" by simp
  have live: "live ?s' = {?new}" "live s = {}" using empty by (auto simp: live_def c)
  have kb: "bitCount k \<le> N * 8" using k by (simp add: wf_key_def)
  have "node_ok N ?s' ?P ?new ?nn"
    using k kb
    by (auto simp: node_ok_def key_ok_def child_ok_def parent_ok_def Node_key_def key_size_def
        key_empty_def)
  then have nodes: "\<forall>x n. cell ?s' x = Some n \<longrightarrow> node_ok N ?s' ?P x n"
    using empty by (auto simp: c)
  have "trie_inv N ?P ?s'"
    using inv nodes live unfolding trie_inv_def
    by (auto simp: c Node_key_def)
  moreover have "ins_post P ?P k s ?new ?s'"
    using empty unfolding ins_post_def
    by (auto simp: c Node_key_def key_size_def)
  ultimately show ?thesis using eval by blast
qed

lemma insert_exact:
  assumes inv: "trie_inv N P s" and k: "wf_key N k" and a: "cell s a = Some an"
    and pl: "place_at N P k s a an tmpKey d"
    and d: "d = bitCount k" "bits an = bitCount k"
  shows "\<exists>b s' P'. lookup_place junk k tmpKey d a s = Inr (b, s') \<and> trie_inv N P' s' \<and>
     ins_post P P' k s b s' \<and> length (heap s') = length (heap s) \<and> numNodes s' = numNodes s"
proof -
  have la: "length (P a) = bits an" by (rule inv_length[OF inv a])
  have "take d (P a) = pfx k d" using pl by (simp add: place_at_def)
  then have Pa: "P a = pfx k (bitCount k)" using la d by simp
  show ?thesis
  proof (cases "key_empty (key an)")
    case False
    have "lookup_place junk k tmpKey d a s = Inr (a, s)"
      using place_exact_data[OF a _ _ False] d by (simp add: key_size_def)
    moreover have "ins_post P P k s a s"
      using a d Pa False unfolding ins_post_def by auto
    ultimately show ?thesis using inv by blast
  next
    case True
    let ?s' = "store a (an\<lparr>key := k\<rparr>) s"
    have c: "cell ?s' = (cell s)(a \<mapsto> an\<lparr>key := k\<rparr>)"
      using cell_Some_less[OF a] by (simp add: cell_store)
    have "lookup_place junk k tmpKey d a s = Inr (a, ?s')"
      using place_exact_glue[OF a _ _ True] d by (simp add: key_size_def)
    moreover have "trie_inv N P ?s'"
      by (rule trie_inv_store_key[OF inv a k True d(2) Pa])
    moreover have "ins_post P P k s a ?s'"
      using a d Pa True unfolding ins_post_def by (auto simp: c)
    ultimately show ?thesis by (intro exI[of _ a] exI[of _ ?s'] exI[of _ P]) simp
  qed
qed

lemma insert_below:
  assumes inv: "trie_inv N P s" and k: "wf_key N k" and a: "cell s a = Some an"
    and pl: "place_at N P k s a an tmpKey d"
    and d: "d < bitCount k" "bits an = d"
  shows "\<exists>b s' P'. lookup_place junk k tmpKey d a s = Inr (b, s') \<and> trie_inv N P' s' \<and>
     ins_post P P' k s b s' \<and> length (heap s') = length (heap s) + 1 \<and>
     numNodes s' = numNodes s + 1"
proof -
  let ?new = "length (heap s)"
  let ?P = "P(?new := pfx k (bitCount k))"
  have la: "length (P a) = bits an" by (rule inv_length[OF inv a])
  have "take d (P a) = pfx k d" using pl by (simp add: place_at_def)
  then have Pa: "P a = pfx k (bits an)" using la d by simp
  have slot: "next_node k an = None" using pl d by (simp add: place_at_def)
  have "d < N * 8" using d k by (simp add: wf_key_def)
  then have bit: "bit_at k d = Inr (kbit k d)" by (rule bit_at_wf[OF k])
  have ne: "\<not> (d = key_size k \<and> bits an = key_size k)" using d by (simp add: key_size_def)
  from place_below[OF a ne d(2) bit, of junk tmpKey] obtain s' where
    s': "lookup_place junk k tmpKey d a s = Inr (?new, s')"
      "cell s' = (cell s)(?new \<mapsto> (Node_key k (key_size k))\<lparr>parent := Some a\<rparr>,
                     a \<mapsto> (if kbit k d then an\<lparr>right := Some ?new\<rparr> else an\<lparr>left := Some ?new\<rparr>))"
      "root s' = root s" "numNodes s' = numNodes s + 1" "length (heap s') = length (heap s) + 1"
    by blast
  have lt: "bits an < bitCount k" using d by simp
  have inv': "trie_inv N ?P s'"
    using trie_inv_below[OF inv a k lt Pa slot refl _ s'(3,4)] s'(2) d(2) by simp
  have fresh: "cell s ?new = None" by simp
  have na: "?new \<noteq> a" using a fresh by auto
  have "ins_post P ?P k s ?new s'"
    unfolding ins_post_def
  proof (intro conjI allI impI)
    show "\<exists>bn. cell s' ?new = Some bn \<and> bits bn = bitCount k \<and> ?P ?new = pfx k (bitCount k) \<and>
        (\<not> key_empty k \<longrightarrow> \<not> key_empty (key bn))"
      using na by (simp add: s'(2) Node_key_def key_size_def)
  next
    fix x n assume "cell s x = Some n"
    then show "?P x = P x" using fresh by auto
  next
    fix x n assume x: "cell s x = Some n"
    then have "x \<noteq> ?new" using fresh by auto
    then show "\<exists>n'. cell s' x = Some n' \<and> bits n' = bits n \<and> data n' = data n \<and>
        (\<not> key_empty (key n) \<longrightarrow> key n' = key n)"
      using x a by (cases "x = a") (auto simp: s'(2))
  next
    fix x n' assume "cell s' x = Some n'" "x \<noteq> ?new" "\<not> key_empty (key n')"
    then show "\<exists>n. cell s x = Some n \<and> key n = key n'"
      using a by (cases "x = a") (auto simp: s'(2) split: if_splits)
  qed
  then show ?thesis using s'(1,4,5) inv' by blast
qed

lemma place_at_parent:
  assumes inv: "trie_inv N P s" and a: "cell s a = Some an"
    and pl: "place_at N P k s a an tmpKey d" and "parent an = Some p"
  shows "p \<noteq> a \<and> cell s p \<noteq> None" and "\<exists>pn. cell s p = Some pn \<and> bits pn < d"
proof -
  from pl assms(4) show "\<exists>pn. cell s p = Some pn \<and> bits pn < d" by (simp add: place_at_def)
  then obtain pn where "cell s p = Some pn" "bits pn < d" by auto
  moreover have "d \<le> bits an" using pl by (simp add: place_at_def)
  ultimately show "p \<noteq> a \<and> cell s p \<noteq> None" using a by auto
qed

lemma inv_root_live:
  assumes "trie_inv N P s" and "cell s a = Some an"
  shows "root s \<noteq> None"
  using assms by (auto simp: trie_inv_def live_def)

lemma insert_above:
  assumes inv: "trie_inv N P s" and k: "wf_key N k" and a: "cell s a = Some an"
    and pl: "place_at N P k s a an tmpKey d"
    and d: "d = bitCount k" "d < bits an"
  shows "\<exists>b s' P'. lookup_place junk k tmpKey d a s = Inr (b, s') \<and> trie_inv N P' s' \<and>
     ins_post P P' k s b s' \<and> length (heap s') = length (heap s) + 1 \<and>
     numNodes s' = numNodes s + 1"
proof -
  let ?new = "length (heap s)"
  let ?P = "P(?new := pfx k (bitCount k))"
  define side where "side = P a ! d"
  define mn :: "'a node" where
    "mn = (if side then (Node_key k (key_size k))\<lparr>right := Some a, parent := parent an\<rparr>
           else (Node_key k (key_size k))\<lparr>left := Some a, parent := parent an\<rparr>)"
  have la: "length (P a) = bits an" by (rule inv_length[OF inv a])
  have ba: "bits an \<le> N * 8" by (rule inv_bits_le[OF inv a])
  have tk: "take d (P a) = pfx k d" using pl by (simp add: place_at_def)
  have tmp: "wf_key N tmpKey" "kbit tmpKey d = P a ! d" using pl d by (simp_all add: place_at_def)
  have "d < N * 8" using d ba by simp
  then have bit: "bit_at tmpKey d = Inr side" using bit_at_wf[OF tmp(1)] tmp(2) by (simp add: side_def)
  have ne: "\<not> (d = key_size k \<and> bits an = key_size k)" "bits an \<noteq> d" "key_size k = d"
    using d by (simp_all add: key_size_def)
  from place_above[OF a ne bit place_at_parent(1)[OF inv a pl], of junk] obtain s' where
    s': "lookup_place junk k tmpKey d a s = Inr (?new, s')"
      "cell s' ?new = Some mn"
      "cell s' a = Some (an\<lparr>parent := Some ?new\<rparr>)"
      "\<forall>p pn. parent an = Some p \<longrightarrow> cell s p = Some pn \<longrightarrow>
         cell s' p = Some (relink pn a (Some ?new))"
      "\<forall>x. x \<noteq> ?new \<longrightarrow> x \<noteq> a \<longrightarrow> Some x \<noteq> parent an \<longrightarrow> cell s' x = cell s x"
      "root s' = (if parent an = None then Some ?new else root s)"
      "numNodes s' = numNodes s + 1" "length (heap s') = length (heap s) + 1"
    unfolding mn_def by blast
  have fresh: "cell s ?new = None" by simp
  have Pold: "\<And>y n. cell s y = Some n \<Longrightarrow> ?P y = P y" using fresh by auto
  have nopar: "d = 0 \<Longrightarrow> parent an = None"
    using place_at_parent(2)[OF inv a pl] by (cases "parent an") auto
  have keym: "key_ok N ?P ?new mn"
    using k d tk nopar
    by (auto simp: key_ok_def mn_def Node_key_def key_size_def key_empty_def)
  have shape: "if P a ! d then right mn = Some a \<and> left mn = None
       else left mn = Some a \<and> right mn = None"
    by (simp add: mn_def side_def Node_key_def)
  have "(\<forall>x n. cell s' x = Some n \<longrightarrow> node_ok N s' ?P x n) \<and>
         (\<forall>r. root s' = Some r \<longrightarrow> (\<exists>rn. cell s' r = Some rn \<and> parent rn = None))"
  proof (rule splice_nodes_ok[OF inv a d(2) _ place_at_parent(2)[OF inv a pl] Pold,
        where m = "?new" and other = None and mn = mn])
    show "d \<le> N * 8" using \<open>d < N * 8\<close> by simp
    show "?P ?new = take d (P a)" using tk d by simp
    show "cell s ?new = None" by simp
    show "bits mn = d" using d by (simp add: mn_def Node_key_def key_size_def)
    show "parent mn = parent an" by (simp add: mn_def Node_key_def)
    show "key_ok N ?P ?new mn" by (rule keym)
    show "if P a ! d then right mn = Some a \<and> left mn = None
       else left mn = Some a \<and> right mn = None" by (rule shape)
    show "cell s' ?new = Some mn" by (rule s'(2))
    show "cell s' a = Some (an\<lparr>parent := Some ?new\<rparr>)" by (rule s'(3))
    show "\<And>p pn. parent an = Some p \<Longrightarrow> cell s p = Some pn \<Longrightarrow>
        cell s' p = Some (relink pn a (Some ?new))" using s'(4) by blast
    show "\<And>x. x \<noteq> ?new \<Longrightarrow> x \<noteq> a \<Longrightarrow> Some x \<noteq> parent an \<Longrightarrow> Some x \<noteq> None \<Longrightarrow>
        cell s' x = cell s x" using s'(5) by blast
    show "root s' = (if parent an = None then Some ?new else root s)" by (rule s'(6))
  qed simp_all
  then have nodes: "\<forall>x n. cell s' x = Some n \<longrightarrow> node_ok N s' ?P x n"
    and rootok: "\<forall>r. root s' = Some r \<longrightarrow> (\<exists>rn. cell s' r = Some rn \<and> parent rn = None)"
    by blast+
  \<comment> \<open>which cells are live\<close>
  have cells: "\<And>x. x \<noteq> ?new \<Longrightarrow> (cell s' x = None) = (cell s x = None)"
  proof -
    fix x assume xn: "x \<noteq> ?new"
    show "(cell s' x = None) = (cell s x = None)"
    proof (cases "x = a")
      case True then show ?thesis using a s'(3) by simp
    next
      case xa: False
      show ?thesis
      proof (cases "Some x = parent an")
        case True
        from place_at_parent(2)[OF inv a pl True[symmetric]] obtain pn where
          "cell s x = Some pn" by auto
        then show ?thesis using s'(4) True by auto
      next
        case False
        then show ?thesis using s'(5) xn xa by simp
      qed
    qed
  qed
  have "live s' = insert ?new (live s)"
  proof (intro set_eqI)
    fix x show "(x \<in> live s') = (x \<in> insert ?new (live s))"
      using cells[of x] s'(2) by (cases "x = ?new") (simp_all add: live_def del: not_None_eq)
  qed
  moreover have "?new \<notin> live s" by (simp add: live_def)
  ultimately have card: "card (live s') = card (live s) + 1" by simp
  have "root s' \<noteq> None" using s'(6) inv_root_live[OF inv a] by auto
  then have inv': "trie_inv N ?P s'"
    using inv nodes rootok card s'(7) by (auto simp: trie_inv_def)
  have "ins_post P ?P k s ?new s'"
    unfolding ins_post_def
  proof (intro conjI allI impI)
    show "\<exists>bn. cell s' ?new = Some bn \<and> bits bn = bitCount k \<and> ?P ?new = pfx k (bitCount k) \<and>
        (\<not> key_empty k \<longrightarrow> \<not> key_empty (key bn))"
      using s'(2) by (simp add: mn_def Node_key_def key_size_def)
  next
    fix x n assume "cell s x = Some n"
    then show "?P x = P x" using fresh by auto
  next
    fix x n assume x: "cell s x = Some n"
    then have xn: "x \<noteq> ?new" using fresh by auto
    show "\<exists>n'. cell s' x = Some n' \<and> bits n' = bits n \<and> data n' = data n \<and>
        (\<not> key_empty (key n) \<longrightarrow> key n' = key n)"
    proof (cases "x = a")
      case True then show ?thesis using x a s'(3) by simp
    next
      case xa: False
      show ?thesis
      proof (cases "Some x = parent an")
        case True
        then show ?thesis using s'(4) x by (auto simp: relink_def)
      next
        case False
        then show ?thesis using s'(5) xn xa x by simp
      qed
    qed
  next
    fix x n' assume x: "cell s' x = Some n'" "x \<noteq> ?new" "\<not> key_empty (key n')"
    show "\<exists>n. cell s x = Some n \<and> key n = key n'"
    proof (cases "x = a")
      case True then show ?thesis using x a s'(3) by auto
    next
      case xa: False
      show ?thesis
      proof (cases "Some x = parent an")
        case True
        from place_at_parent(2)[OF inv a pl True[symmetric]] obtain pn where
          "cell s x = Some pn" by auto
        then show ?thesis using s'(4) True x by (auto simp: relink_def split: if_splits)
      next
        case False
        then show ?thesis using s'(5) x xa by simp
      qed
    qed
  qed
  then show ?thesis using s'(1,7,8) inv' by blast
qed

lemma insert_fork:
  assumes inv: "trie_inv N P s" and k: "wf_key N k" and a: "cell s a = Some an"
    and pl: "place_at N P k s a an tmpKey d"
    and d: "d < bitCount k" "d < bits an"
  shows "\<exists>b s' P'. lookup_place junk k tmpKey d a s = Inr (b, s') \<and> trie_inv N P' s' \<and>
     ins_post P P' k s b s' \<and> length (heap s') = length (heap s) + 2 \<and>
     numNodes s' = numNodes s + 2"
proof -
  let ?new = "length (heap s)"
  let ?glue = "Suc (length (heap s))"
  let ?P = "P(?new := pfx k (bitCount k), ?glue := pfx k d)"
  define b where "b = kbit k d"
  define nn :: "'a node" where "nn = (Node_key k (key_size k))\<lparr>parent := Some ?glue\<rparr>"
  define gn :: "'a node" where
    "gn = (if b then (Node_default junk)\<lparr>bits := d, parent := parent an,
                         right := Some ?new, left := Some a\<rparr>
             else (Node_default junk)\<lparr>bits := d, parent := parent an,
                         right := Some a, left := Some ?new\<rparr>)"
  have la: "length (P a) = bits an" by (rule inv_length[OF inv a])
  have ba: "bits an \<le> N * 8" by (rule inv_bits_le[OF inv a])
  have kb: "bitCount k \<le> N * 8" using k by (simp add: wf_key_def)
  have tk: "take d (P a) = pfx k d" using pl by (simp add: place_at_def)
  have side: "P a ! d = (\<not> b)" using pl d by (simp add: place_at_def b_def)
  have dN: "d < N * 8" using d ba by simp
  then have bit: "bit_at k d = Inr b" using bit_at_wf[OF k] by (simp add: b_def)
  have ne: "\<not> (d = key_size k \<and> bits an = key_size k)" "bits an \<noteq> d" "key_size k \<noteq> d"
    using d by (simp_all add: key_size_def)
  from place_fork[OF a ne bit place_at_parent(1)[OF inv a pl], of junk tmpKey] obtain s' where
    s': "lookup_place junk k tmpKey d a s = Inr (?new, s')"
      "cell s' ?new = Some nn"
      "cell s' ?glue = Some gn"
      "cell s' a = Some (an\<lparr>parent := Some ?glue\<rparr>)"
      "\<forall>p pn. parent an = Some p \<longrightarrow> cell s p = Some pn \<longrightarrow>
         cell s' p = Some (relink pn a (Some ?glue))"
      "\<forall>x. x \<noteq> ?new \<longrightarrow> x \<noteq> ?glue \<longrightarrow> x \<noteq> a \<longrightarrow> Some x \<noteq> parent an \<longrightarrow>
         cell s' x = cell s x"
      "root s' = (if parent an = None then Some ?glue else root s)"
      "numNodes s' = numNodes s + 2" "length (heap s') = length (heap s) + 2"
    unfolding nn_def gn_def by blast
  have fresh: "cell s ?new = None" "cell s ?glue = None" by (simp_all add: cell_def)
  have Pold: "\<And>y n. cell s y = Some n \<Longrightarrow> ?P y = P y" using fresh by auto
  have keyg: "key_ok N ?P ?glue gn"
    by (simp add: key_ok_def gn_def Node_default_def BitArray_default_def key_empty_def)
  have shape: "if P a ! d then right gn = Some a \<and> left gn = Some ?new
       else left gn = Some a \<and> right gn = Some ?new"
    using side by (simp add: gn_def)
  have gl: "left gn = Some ?new \<or> right gn = Some ?new" by (simp add: gn_def)
  have oknn: "node_ok N s' ?P ?new nn"
    using k kb d s'(3) gl
    by (auto simp: node_ok_def key_ok_def child_ok_def parent_ok_def nn_def Node_key_def
        key_size_def key_empty_def)
  have sub: "take (Suc d) (?P ?new) = take d (P a) @ [\<not> P a ! d]"
    using d tk side by (simp add: min_def pfx_Suc b_def)
  have "(\<forall>x n. cell s' x = Some n \<longrightarrow> node_ok N s' ?P x n) \<and>
         (\<forall>r. root s' = Some r \<longrightarrow> (\<exists>rn. cell s' r = Some rn \<and> parent rn = None))"
  proof (rule splice_nodes_ok[OF inv a d(2) _ place_at_parent(2)[OF inv a pl] Pold,
        where m = "?glue" and other = "Some ?new" and mn = gn])
    show "d \<le> N * 8" using dN by simp
    show "?P ?glue = take d (P a)" using tk by simp
    show "cell s ?glue = None" by (rule fresh(2))
    show "\<And>l. Some ?new = Some l \<Longrightarrow> cell s l = None \<and> l \<noteq> ?glue" using fresh by auto
    show "bits gn = d" by (simp add: gn_def)
    show "parent gn = parent an" by (simp add: gn_def)
    show "key_ok N ?P ?glue gn" by (rule keyg)
    show "if P a ! d then right gn = Some a \<and> left gn = Some ?new
       else left gn = Some a \<and> right gn = Some ?new" by (rule shape)
    show "\<And>l. Some ?new = Some l \<Longrightarrow>
        \<exists>ln. cell s' l = Some ln \<and> node_ok N s' ?P l ln \<and> parent ln = Some ?glue \<and> d < bits ln \<and>
             take (Suc d) (?P l) = take d (P a) @ [\<not> P a ! d]"
      using s'(2) oknn sub d by (auto simp: nn_def Node_key_def key_size_def)
    show "cell s' ?glue = Some gn" by (rule s'(3))
    show "cell s' a = Some (an\<lparr>parent := Some ?glue\<rparr>)" by (rule s'(4))
    show "\<And>p pn. parent an = Some p \<Longrightarrow> cell s p = Some pn \<Longrightarrow>
        cell s' p = Some (relink pn a (Some ?glue))" using s'(5) by blast
    show "\<And>x. x \<noteq> ?glue \<Longrightarrow> x \<noteq> a \<Longrightarrow> Some x \<noteq> parent an \<Longrightarrow> Some x \<noteq> Some ?new \<Longrightarrow>
        cell s' x = cell s x" using s'(6) by auto
    show "root s' = (if parent an = None then Some ?glue else root s)" by (rule s'(7))
  qed
  then have nodes: "\<forall>x n. cell s' x = Some n \<longrightarrow> node_ok N s' ?P x n"
    and rootok: "\<forall>r. root s' = Some r \<longrightarrow> (\<exists>rn. cell s' r = Some rn \<and> parent rn = None)"
    by blast+
  \<comment> \<open>what the old cells hold\<close>
  have oldcell: "\<exists>n'. cell s' x = Some n' \<and> bits n' = bits n \<and> data n' = data n \<and> key n' = key n"
    if x: "cell s x = Some n" for x n
  proof -
    have xn: "x \<noteq> ?new" "x \<noteq> ?glue" using x fresh by auto
    show ?thesis
    proof (cases "x = a")
      case True then show ?thesis using x a s'(4) by simp
    next
      case xa: False
      show ?thesis
      proof (cases "Some x = parent an")
        case True
        then show ?thesis using s'(5) x by (auto simp: relink_def)
      next
        case False
        then show ?thesis using s'(6) xn xa x by simp
      qed
    qed
  qed
  have newcell: "\<exists>n. cell s x = Some n \<and> key n = key n'"
    if x: "cell s' x = Some n'" "x \<noteq> ?new" "x \<noteq> ?glue" for x n'
  proof (cases "x = a")
    case True then show ?thesis using x a s'(4) by auto
  next
    case xa: False
    show ?thesis
    proof (cases "Some x = parent an")
      case True
      from place_at_parent(2)[OF inv a pl True[symmetric]] obtain pn where
        "cell s x = Some pn" by auto
      then show ?thesis using s'(5) True x by (auto simp: relink_def split: if_splits)
    next
      case False
      then show ?thesis using s'(6) x xa by simp
    qed
  qed
  have "live s' = insert ?glue (insert ?new (live s))"
  proof (intro set_eqI)
    fix x show "(x \<in> live s') = (x \<in> insert ?glue (insert ?new (live s)))"
    proof (cases "x = ?new \<or> x = ?glue")
      case True then show ?thesis using s'(2,3) by (auto simp: live_def)
    next
      case False
      then show ?thesis using oldcell[of x] newcell[of x] by (auto simp: live_def)
    qed
  qed
  moreover have "?new \<notin> live s" "?glue \<notin> live s" using fresh by (simp_all add: live_def)
  ultimately have card: "card (live s') = card (live s) + 2" by simp
  have "root s' \<noteq> None" using s'(7) inv_root_live[OF inv a] by auto
  then have inv': "trie_inv N ?P s'"
    using inv nodes rootok card s'(8) by (auto simp: trie_inv_def)
  have "ins_post P ?P k s ?new s'"
    unfolding ins_post_def
  proof (intro conjI allI impI)
    show "\<exists>bn. cell s' ?new = Some bn \<and> bits bn = bitCount k \<and> ?P ?new = pfx k (bitCount k) \<and>
        (\<not> key_empty k \<longrightarrow> \<not> key_empty (key bn))"
      using s'(2) by (simp add: nn_def Node_key_def key_size_def)
  next
    fix x n assume "cell s x = Some n"
    then show "?P x = P x" using fresh by auto
  next
    fix x n assume x: "cell s x = Some n"
    from oldcell[OF x] show "\<exists>n'. cell s' x = Some n' \<and> bits n' = bits n \<and> data n' = data n \<and>
        (\<not> key_empty (key n) \<longrightarrow> key n' = key n)" by auto
  next
    fix x n' assume x: "cell s' x = Some n'" "x \<noteq> ?new" "\<not> key_empty (key n')"
    have "key_empty (key gn)"
      by (simp add: gn_def Node_default_def BitArray_default_def key_empty_def)
    then have "x \<noteq> ?glue" using x s'(3) by auto
    from newcell[OF x(1,2) this] show "\<exists>n. cell s x = Some n \<and> key n = key n'" .
  qed
  then show ?thesis using s'(1,8,9) inv' by blast
qed

subsection \<open>lookupNode keeps the invariant\<close>

lemma lookupNode_inv:
  assumes inv: "trie_inv N P s" and k: "wf_key N k"
  shows "\<exists>b s' P'. lookupNode junk k s = Inr (b, s') \<and> trie_inv N P' s' \<and>
     ins_post P P' k s b s' \<and> length (heap s') \<le> length (heap s) + 2 \<and>
     numNodes s' \<le> numNodes s + 2"
proof (cases "root s")
  case None
  from insert_first[OF inv k None, of junk] obtain b s' P' where
    r: "lookupNode junk k s = Inr (b, s')" "trie_inv N P' s'" "ins_post P P' k s b s'" by blast
  then have "length (heap s') = length (heap s) + 1 \<and> numNodes s' = numNodes s + 1"
    using None by (auto simp: lookupNode_def new_node_def)
  then show ?thesis using r by auto
next
  case (Some r)
  from lookup_position[OF inv k Some] obtain t tn d a an where
    p: "lookup_descend (length (heap s) + 1) k s r = Inr t" "cell s t = Some tn"
     "firstDifferentBit k (key tn) (if bits tn < key_size k then bits tn else key_size k) = Inr d"
     "lookup_walkback (length (heap s) + 1) s d t = Inr a" "cell s a = Some an"
     "place_at N P k s a an (key tn) d" by blast
  have eval: "lookupNode junk k s = lookup_place junk k (key tn) d a s"
    using Some p(1-4) by (simp add: lookupNode_def Let_def)
  have dle: "d \<le> bitCount k" "d \<le> bits an" using p(6) by (simp_all add: place_at_def)
  consider "d = bitCount k" "bits an = bitCount k" | "d < bitCount k" "bits an = d"
    | "d = bitCount k" "d < bits an" | "d < bitCount k" "d < bits an"
    using dle by linarith
  then show ?thesis
  proof cases
    case 1
    from insert_exact[OF inv k p(5,6) 1, of junk] show ?thesis unfolding eval by fastforce
  next
    case 2
    from insert_below[OF inv k p(5,6) 2, of junk] show ?thesis unfolding eval by fastforce
  next
    case 3
    from insert_above[OF inv k p(5,6) 3, of junk] show ?thesis unfolding eval by fastforce
  next
    case 4
    from insert_fork[OF inv k p(5,6) 4, of junk] show ?thesis unfolding eval by fastforce
  qed
qed

subsection \<open>Every node is below the root\<close>

lemma below_root:
  assumes inv: "trie_inv N P s"
  shows "cell s x = Some xn \<Longrightarrow> \<exists>r. root s = Some r \<and> (cstep s)\<^sup>*\<^sup>* r x"
proof (induction "bits xn" arbitrary: x xn rule: less_induct)
  case less
  show ?case
  proof (cases "parent xn")
    case None
    then have "root s = Some x" using inv_parent[OF inv less.prems] by (simp add: parent_ok_def)
    then show ?thesis by auto
  next
    case (Some p)
    from inv_parent_Some[OF inv less.prems Some] obtain pn where
      pn: "cell s p = Some pn" "left pn = Some x \<or> right pn = Some x" "bits pn < bits xn" by auto
    from less.hyps[OF pn(3) pn(1)] obtain r where r: "root s = Some r" "(cstep s)\<^sup>*\<^sup>* r p" by auto
    have "cstep s p x" using pn by (auto simp: cstep_def)
    then show ?thesis using r by auto
  qed
qed

lemma inv_cstep:
  assumes inv: "trie_inv N P s" and "cstep s a c" and a: "cell s a = Some na"
  shows "\<exists>side cn. (if side then right na = Some c else left na = Some c) \<and>
     cell s c = Some cn \<and> bits na < bits cn \<and> take (Suc (bits na)) (P c) = P a @ [side]"
proof -
  from assms(2) a have "left na = Some c \<or> right na = Some c" by (auto simp: cstep_def)
  then show ?thesis
  proof
    assume l: "left na = Some c"
    from inv_left[OF inv a l] show ?thesis using l by (intro exI[of _ False]) auto
  next
    assume r: "right na = Some c"
    from inv_right[OF inv a r] show ?thesis using r by (intro exI[of _ True]) auto
  qed
qed

lemma cstep_props:
  assumes inv: "trie_inv N P s"
  shows "(cstep s)\<^sup>*\<^sup>* a b \<Longrightarrow> cell s a = Some na \<Longrightarrow>
         \<exists>nb. cell s b = Some nb \<and> bits na \<le> bits nb \<and> take (bits na) (P b) = P a"
proof (induction arbitrary: na rule: converse_rtranclp_induct)
  case base
  then show ?case using inv_length[OF inv base] by auto
next
  case (step a c)
  from inv_cstep[OF inv step.hyps(1) step.prems] obtain side cn where
    lr: "if side then right na = Some c else left na = Some c" and
    c: "cell s c = Some cn" "bits na < bits cn" "take (Suc (bits na)) (P c) = P a @ [side]"
    by blast
  from step.IH[OF c(1)] obtain nb where
    b: "cell s b = Some nb" "bits cn \<le> bits nb" "take (bits cn) (P b) = P c" by auto
  have la: "length (P a) = bits na" using inv_length[OF inv step.prems] .
  note sn = take_Suc_snoc[OF c(3) la]
  have "take (bits na) (P b) = take (bits na) (take (bits cn) (P b))"
    using c(2) by (simp add: min_def)
  also have "\<dots> = P a" using b(3) sn(1) by simp
  finally show ?case using b(1,2) c(2) by auto
qed

text \<open>A path to a node whose prefix the key has follows the bits of the key.\<close>

lemma cstep_follows_key:
  assumes inv: "trie_inv N P s"
  shows "(cstep s)\<^sup>*\<^sup>* a x \<Longrightarrow> cell s a = Some na \<Longrightarrow> cell s x = Some xn \<Longrightarrow>
         P x = pfx k (bits xn) \<Longrightarrow> (step k s)\<^sup>*\<^sup>* a x"
proof (induction arbitrary: na rule: converse_rtranclp_induct)
  case base
  then show ?case by simp
next
  case (step a c)
  from inv_cstep[OF inv step.hyps(1) step.prems(1)] obtain side cn where
    lr: "if side then right na = Some c else left na = Some c" and
    c: "cell s c = Some cn" "bits na < bits cn" "take (Suc (bits na)) (P c) = P a @ [side]"
    by blast
  from cstep_props[OF inv step.hyps(2) c(1)] step.prems(2) have
    cx: "bits cn \<le> bits xn" "take (bits cn) (P x) = P c" by auto
  have la: "length (P a) = bits na" using inv_length[OF inv step.prems(1)] .
  note sn = take_Suc_snoc[OF c(3) la]
  have "P c ! bits na = P x ! bits na" using cx(2) c(2) by (metis nth_take)
  also have "\<dots> = kbit k (bits na)" using step.prems(3) c(2) cx(1) by simp
  finally have "side = kbit k (bits na)" using sn(2) by simp
  then have "next_node k na = Some c" using lr by (auto simp: next_node_def)
  then have "step k s a c" using step.prems(1) by (auto simp: step_def)
  moreover have "(step k s)\<^sup>*\<^sup>* c x" by (rule step.IH[OF c(1) step.prems(2,3)])
  ultimately show ?case by (rule converse_rtranclp_into_rtranclp)
qed

lemma root_path_follows_key:
  assumes inv: "trie_inv N P s" and x: "cell s x = Some xn" and Px: "P x = pfx k (bits xn)"
  shows "\<exists>r rn. root s = Some r \<and> cell s r = Some rn \<and> (step k s)\<^sup>*\<^sup>* r x"
proof -
  from below_root[OF inv x] obtain r where r: "root s = Some r" "(cstep s)\<^sup>*\<^sup>* r x" by auto
  from inv_root[OF inv r(1)] obtain rn where rn: "cell s r = Some rn" by auto
  from cstep_follows_key[OF inv r(2) rn x Px] show ?thesis using r(1) rn by auto
qed

subsection \<open>searchExact\<close>

lemma searchExact_loop_total:
  assumes inv: "trie_inv N P s" and k: "wf_key N k"
  shows "cell s a = Some na \<Longrightarrow> card (deeper s (bits na)) < fuel \<Longrightarrow>
     \<exists>res. searchExact_loop fuel k s a = Inr res \<and>
        (\<forall>t. res = Some t \<longrightarrow> (\<exists>tn. cell s t = Some tn \<and> key_size k \<le> bits tn))"
proof (induction fuel arbitrary: a na)
  case 0
  then show ?case by simp
next
  case (Suc fuel)
  show ?case
  proof (cases "bits na < key_size k")
    case False
    then show ?thesis using Suc.prems(1) by auto
  next
    case True
    then have "bits na < N * 8" using k by (auto simp: key_size_def wf_key_def)
    then have bit: "bit_at k (bits na) = Inr (kbit k (bits na))" by (rule bit_at_wf[OF k])
    show ?thesis
    proof (cases "next_node k na")
      case None
      then have "searchExact_loop (Suc fuel) k s a = Inr None"
        using True Suc.prems(1) bit by (auto simp: next_node_def)
      then show ?thesis by simp
    next
      case (Some c)
      then have st: "step k s a c" using Suc.prems(1) by (auto simp: step_def)
      from inv_step[OF inv st] Suc.prems(1) obtain cn where
        c: "cell s c = Some cn" "bits na < bits cn" by auto
      have "card (deeper s (bits cn)) < fuel"
        using deeper_less[OF c] Suc.prems(2) by simp
      from Suc.IH[OF c(1) this] obtain res where
        r: "searchExact_loop fuel k s c = Inr res"
           "\<forall>t. res = Some t \<longrightarrow> (\<exists>tn. cell s t = Some tn \<and> key_size k \<le> bits tn)" by blast
      have "searchExact_loop (Suc fuel) k s a = Inr res"
        using True Suc.prems(1) bit Some r(1) by (auto simp: next_node_def)
      then show ?thesis using r(2) by blast
    qed
  qed
qed

lemma searchExact_loop_finds:
  assumes inv: "trie_inv N P s" and k: "wf_key N k"
    and x: "cell s x = Some xn" "bits xn = key_size k"
  shows "(step k s)\<^sup>*\<^sup>* a x \<Longrightarrow> cell s a = Some na \<Longrightarrow> card (deeper s (bits na)) < fuel \<Longrightarrow>
     searchExact_loop fuel k s a = Inr (Some x)"
proof (induction arbitrary: na fuel rule: converse_rtranclp_induct)
  case base
  then obtain f where "fuel = Suc f" by (cases fuel) auto
  then show ?case using base x by simp
next
  case (step a c)
  obtain f where f: "fuel = Suc f" using step.prems(2) by (cases fuel) auto
  from inv_step[OF inv step.hyps(1)] step.prems(1) obtain cn where
    c: "cell s c = Some cn" "bits na < bits cn" "next_node k na = Some c" by auto
  from desc_props[OF inv step.hyps(2) c(1)] x(1) have "bits cn \<le> bits xn" by auto
  then have lt: "bits na < key_size k" using c(2) x(2) by simp
  then have "bits na < N * 8" using k by (auto simp: key_size_def wf_key_def)
  then have bit: "bit_at k (bits na) = Inr (kbit k (bits na))" by (rule bit_at_wf[OF k])
  have "card (deeper s (bits cn)) < f"
    using deeper_less[OF c(1,2)] step.prems(2) f by simp
  from step.IH[OF c(1) this] show ?case
    using f lt step.prems(1) bit c(3) by (auto simp: next_node_def)
qed

lemma same_key_pfx:
  "same_key a b = (bitCount a = bitCount b \<and> pfx a (bitCount a) = pfx b (bitCount a))"
  by (simp add: same_key_def pfx_eq_iff)

lemma searchExact_spec:
  assumes inv: "trie_inv N P s" and k: "wf_key N k"
  shows "\<exists>res. searchExact k s = Inr res \<and> (\<forall>a. res = Some a \<longrightarrow> holds_key s a k) \<and>
           (\<forall>x. holds_key s x k \<longrightarrow> res = Some x)"
proof (cases "root s")
  case None
  then have "\<And>x. cell s x = None" using inv by (auto simp: trie_inv_def live_def)
  then show ?thesis using None by (simp add: searchExact_def holds_key_def)
next
  case (Some r)
  from inv_root[OF inv Some] obtain rn where rn: "cell s r = Some rn" by auto
  from searchExact_loop_total[OF inv k rn deeper_fuel] obtain found where
    f: "searchExact_loop (length (heap s) + 1) k s r = Inr found"
       "\<forall>t. found = Some t \<longrightarrow> (\<exists>tn. cell s t = Some tn \<and> key_size k \<le> bits tn)" by blast
  \<comment> \<open>what the test behind the loop returns\<close>
  have test: "\<exists>res. searchExact k s = Inr res \<and> (res = Some t \<or> res = None) \<and>
      (res = Some t) = holds_key s t k \<and> (holds_key s t k \<longrightarrow> bits tn = key_size k)"
    if t: "found = Some t" "cell s t = Some tn" for t tn
  proof (cases "key_size k < bits tn \<or> key_empty (key tn)")
    case True
    then have "searchExact k s = Inr None"
      using Some f(1) t by (simp add: searchExact_def)
    moreover have "\<not> holds_key s t k"
      using True t(2) inv_data(2)[OF inv t(2)]
      by (auto simp: holds_key_def same_key_def key_size_def)
    ultimately show ?thesis by simp
  next
    case False
    then have ne: "\<not> key_empty (key tn)" and le: "bits tn \<le> key_size k" by auto
    have eq: "bits tn = key_size k" using le f(2) t by auto
    note dt = inv_data[OF inv t(2) ne]
    have "compareBits k (key tn) (key_size k) =
        Inr (key_size k \<le> bitCount k \<and> key_size k \<le> bitCount (key tn) \<and>
             (\<forall>i < key_size k. kbit k i = kbit (key tn) i))"
      by (rule compareBits_kbit[OF k dt(1)])
    then have cmp: "compareBits k (key tn) (key_size k) = Inr (same_key (key tn) k)"
      using dt(2) eq by (auto simp: same_key_def key_size_def)
    have "searchExact k s = Inr (if same_key (key tn) k then Some t else None)"
      using Some f(1) t False cmp by (simp add: searchExact_def)
    moreover have "holds_key s t k = same_key (key tn) k"
      using t(2) ne by (simp add: holds_key_def)
    ultimately show ?thesis using eq by auto
  qed
  \<comment> \<open>a node with the key is the one the loop ends at\<close>
  have complete: "found = Some x" if h: "holds_key s x k" for x
  proof -
    from h obtain xn where xn: "cell s x = Some xn" "\<not> key_empty (key xn)" "same_key (key xn) k"
      by (auto simp: holds_key_def)
    note dx = inv_data[OF inv xn(1,2)]
    have bx: "bits xn = key_size k" using dx(2) xn(3) by (simp add: same_key_def key_size_def)
    have "P x = pfx k (bits xn)" using dx(2,3) xn(3) by (simp add: same_key_pfx)
    from root_path_follows_key[OF inv xn(1) this] Some have path: "(step k s)\<^sup>*\<^sup>* r x" by auto
    from searchExact_loop_finds[OF inv k xn(1) bx path rn deeper_fuel] f(1)
    show ?thesis by simp
  qed
  show ?thesis
  proof (cases found)
    case None
    then have "searchExact k s = Inr None" using Some f(1) by (simp add: searchExact_def)
    moreover have "\<And>x. \<not> holds_key s x k" using complete None by auto
    ultimately show ?thesis by simp
  next
    case (Some t)
    from f(2) Some obtain tn where tn: "cell s t = Some tn" by auto
    from test[OF Some tn] obtain res where
      res: "searchExact k s = Inr res" "res = Some t \<or> res = None"
        "(res = Some t) = holds_key s t k" by blast
    have "\<And>x. holds_key s x k \<Longrightarrow> x = t" using complete Some by auto
    then show ?thesis using res by auto
  qed
qed

subsection \<open>Storing a node with the same links\<close>

lemma trie_inv_store:
  assumes inv: "trie_inv N P s" and a: "cell s a = Some an"
    and same: "left an' = left an" "right an' = right an" "parent an' = parent an"
      "bits an' = bits an"
    and key: "key_ok N P a an'"
  shows "trie_inv N P (store a an' s)"
proof -
  let ?s' = "store a an' s"
  have c: "cell ?s' = (cell s)(a \<mapsto> an')"
    using cell_Some_less[OF a] by (simp add: cell_store)
  have live: "live ?s' = live s" using a by (auto simp: live_def c)
  have old: "node_ok N ?s' P x n" if xs: "cell s x = Some n" for x n
  proof (rule node_ok_unchanged[OF inv_node[OF inv xs] refl xs])
    fix c' cn assume "cell s c' = Some cn" "parent cn = Some x"
    then show "\<exists>cn'. cell ?s' c' = Some cn' \<and> parent cn' = Some x \<and> bits cn' = bits cn"
      using a same by (auto simp: c)
  next
    fix p pn assume "cell s p = Some pn" "parent n = Some p"
    then show "\<exists>pn'. cell ?s' p = Some pn' \<and> (left pn = Some x \<longrightarrow> left pn' = Some x) \<and>
              (right pn = Some x \<longrightarrow> right pn' = Some x)"
      using a same by (auto simp: c)
  qed simp
  have "node_ok N ?s' P a an'"
    using old[OF a] same key by (simp add: node_ok_def child_ok_def parent_ok_def)
  then have nodes: "\<forall>x n. cell ?s' x = Some n \<longrightarrow> node_ok N ?s' P x n"
    using old by (auto simp: c)
  have "\<forall>r. root ?s' = Some r \<longrightarrow> (\<exists>rn. cell ?s' r = Some rn \<and> parent rn = None)"
    using inv a same by (auto simp: trie_inv_def c)
  then show ?thesis using inv nodes live by (simp add: trie_inv_def)
qed

subsection \<open>A node taken out above its only child\<close>

lemma unsplice_nodes_ok:
  fixes s s' :: "'v trie"
  assumes inv: "trie_inv N P s" and m: "cell s m = Some mn" and c: "cell s c = Some cn"
    and mc: "left mn = Some c \<or> right mn = Some c"
    and other: "\<And>l. left mn = Some l \<or> right mn = Some l \<Longrightarrow> l \<noteq> c \<Longrightarrow>
        cell s' l = None \<and> (\<exists>ln. cell s l = Some ln \<and> left ln = None \<and> right ln = None)"
    and cm: "cell s' m = None"
    and cc: "cell s' c = Some (cn\<lparr>parent := parent mn\<rparr>)"
    and cp: "\<And>p pn. parent mn = Some p \<Longrightarrow> cell s p = Some pn \<Longrightarrow>
        cell s' p = Some (relink pn m (Some c))"
    and co: "\<And>x. x \<noteq> m \<Longrightarrow> x \<noteq> c \<Longrightarrow> Some x \<noteq> parent mn \<Longrightarrow> left mn \<noteq> Some x \<Longrightarrow>
        right mn \<noteq> Some x \<Longrightarrow> cell s' x = cell s x"
    and rt: "root s' = (if parent mn = None then Some c else root s)"
  shows "(\<forall>x n. cell s' x = Some n \<longrightarrow> node_ok N s' P x n) \<and>
         (\<forall>r. root s' = Some r \<longrightarrow> (\<exists>rn. cell s' r = Some rn \<and> parent rn = None))"
proof -
  from inv_child_parent[OF inv m mc] c have cn: "parent cn = Some m" "bits mn < bits cn" by auto
  have okm: "node_ok N s P m mn" by (rule inv_node[OF inv m])
  have okc: "node_ok N s P c cn" by (rule inv_node[OF inv c])
  have lm: "length (P m) = bits mn" using okm by (simp add: node_ok_def)
  have "\<exists>side. take (Suc (bits mn)) (P c) = P m @ [side]"
    using mc inv_left[OF inv m, of c] inv_right[OF inv m, of c] by auto
  then obtain side0 where "take (Suc (bits mn)) (P c) = P m @ [side0]" by auto
  from take_Suc_snoc(1)[OF this lm] have Pc: "take (bits mn) (P c) = P m" .
  have cm_ne: "c \<noteq> m" using cn c m by auto
  \<comment> \<open>the parent of \<open>m\<close>\<close>
  have par: "\<exists>pn. cell s p = Some pn \<and> bits pn < bits mn \<and> p \<noteq> m \<and> p \<noteq> c \<and>
        (left pn = Some m \<or> right pn = Some m) \<and> cell s' p = Some (relink pn m (Some c))"
    if "parent mn = Some p" for p
  proof -
    from inv_parent_Some[OF inv m that] obtain pn where
      pn: "cell s p = Some pn" "left pn = Some m \<or> right pn = Some m" "bits pn < bits mn" by auto
    have "p \<noteq> m" "p \<noteq> c" using pn m c cn by auto
    then show ?thesis using pn cp[OF that pn(1)] by auto
  qed
  have kids_m: "x = c \<or> (cell s' x = None \<and> (\<exists>ln. cell s x = Some ln \<and> left ln = None \<and> right ln = None))"
    if "left mn = Some x \<or> right mn = Some x" for x
    using other[OF that] by auto
  have keep: "cell s' x = cell s x"
    if "cell s' x = Some n \<or> cell s x = Some n" "x \<noteq> c" "Some x \<noteq> parent mn" "x \<noteq> m"
       "left mn \<noteq> Some x" "right mn \<noteq> Some x" for x n
    using co[of x] that by auto
  \<comment> \<open>the nodes away from the place\<close>
  have away: "node_ok N s' P x n" if xs': "cell s' x = Some n" and xc: "x \<noteq> c"
    and xp: "Some x \<noteq> parent mn" for x n
  proof -
    have xm: "x \<noteq> m" using xs' cm by auto
    have xk: "left mn \<noteq> Some x" "right mn \<noteq> Some x" using kids_m[of x] xc xs' by auto
    have xs: "cell s x = Some n" using keep[of x n] xs' xc xp xm xk by simp
    show ?thesis
    proof (rule node_ok_unchanged[OF inv_node[OF inv xs] refl xs])
      fix c' cn' assume h: "cell s c' = Some cn'" "parent cn' = Some x"
      have 1: "c' \<noteq> m" using h m xp by auto
      have 2: "c' \<noteq> c" using h c cn xm by auto
      have 3: "left mn \<noteq> Some c'" "right mn \<noteq> Some c'"
        using inv_child_parent[OF inv m, of c'] h xm by auto
      show "\<exists>cn''. cell s' c' = Some cn'' \<and> parent cn'' = Some x \<and> bits cn'' = bits cn'"
      proof (cases "Some c' = parent mn")
        case True
        from par[OF True[symmetric]] h show ?thesis by (auto simp: relink_def)
      next
        case False
        then show ?thesis using keep[of c' cn'] h 1 2 3 by simp
      qed
    next
      fix q qn assume h: "cell s q = Some qn" "parent n = Some q"
      from inv_parent_Some[OF inv xs h(2)] h(1) have
        qx: "left qn = Some x \<or> right qn = Some x" by auto
      have qm: "q \<noteq> m" using qx xk h(1) m by auto
      show "\<exists>qn'. cell s' q = Some qn' \<and> (left qn = Some x \<longrightarrow> left qn' = Some x) \<and>
              (right qn = Some x \<longrightarrow> right qn' = Some x)"
      proof (cases "q = c")
        case True
        then show ?thesis using h c cc by auto
      next
        case qc: False
        show ?thesis
        proof (cases "Some q = parent mn")
          case True
          from par[OF True[symmetric]] h xm show ?thesis by (auto simp: relink_def)
        next
          case False
          have "left mn \<noteq> Some q" "right mn \<noteq> Some q" using kids_m[of q] qx h(1) qc by auto
          then show ?thesis using keep[of q qn] h qc False qm by simp
        qed
      qed
    next
      assume "root s = Some x"
      moreover have "parent mn = None \<longrightarrow> root s = Some m"
        using okm by (simp add: node_ok_def parent_ok_def)
      ultimately show "root s' = Some x" using rt xm by auto
    qed
  qed
  \<comment> \<open>the child\<close>
  have okc': "node_ok N s' P c (cn\<lparr>parent := parent mn\<rparr>)"
  proof -
    have kid: "child_ok s' P c cn side link" if "child_ok s P c cn side link" for side link
      unfolding child_ok_def
    proof (intro allI impI)
      fix c' assume l: "link = Some c'"
      with that obtain cn' where cn': "cell s c' = Some cn'" "parent cn' = Some c"
        "bits cn < bits cn'" "take (Suc (bits cn)) (P c') = P c @ [side]"
        by (auto simp: child_ok_def)
      have 1: "c' \<noteq> c" "c' \<noteq> m" using cn' c m cn by auto
      have 2: "Some c' \<noteq> parent mn"
      proof
        assume "Some c' = parent mn"
        from par[OF this[symmetric]] cn' cn show False by auto
      qed
      have 3: "left mn \<noteq> Some c'" "right mn \<noteq> Some c'"
        using inv_child_parent[OF inv m, of c'] cn' cm_ne by auto
      have "cell s' c' = Some cn'" using keep[of c' cn'] cn'(1) 1 2 3 by simp
      then show "\<exists>cn''. cell s' c' = Some cn'' \<and> parent cn'' = Some c \<and> bits cn < bits cn'' \<and>
          take (Suc (bits cn)) (P c') = P c @ [side]"
        using cn' by auto
    qed
    have "key_ok N P c (cn\<lparr>parent := parent mn\<rparr>)"
      using okc cn by (auto simp: node_ok_def key_ok_def)
    moreover have "parent_ok s' c (cn\<lparr>parent := parent mn\<rparr>)"
      unfolding parent_ok_def
    proof (intro conjI allI impI)
      assume "parent (cn\<lparr>parent := parent mn\<rparr>) = None"
      then show "root s' = Some c" using rt by simp
    next
      fix p assume "parent (cn\<lparr>parent := parent mn\<rparr>) = Some p"
      then have "parent mn = Some p" by simp
      from par[OF this] show "\<exists>pn. cell s' p = Some pn \<and> (left pn = Some c \<or> right pn = Some c)"
        by (auto simp: relink_def)
    qed
    ultimately show ?thesis
      using okc kid[of False "left cn"] kid[of True "right cn"]
      by (simp add: node_ok_def child_ok_def)
  qed
  \<comment> \<open>the parent\<close>
  have okp: "node_ok N s' P p (relink pn m (Some c))"
    if pa: "parent mn = Some p" and ps: "cell s p = Some pn" for p pn
  proof -
    from par[OF pa] ps have pn: "bits pn < bits mn" "p \<noteq> m" "p \<noteq> c"
      "left pn = Some m \<or> right pn = Some m" by auto
    have okpn: "node_ok N s P p pn" by (rule inv_node[OF inv ps])
    have toc: "child_ok s' P p pn side (Some c)" if "child_ok s P p pn side (Some m)" for side
    proof -
      from that m have "take (Suc (bits pn)) (P m) = P p @ [side]" by (auto simp: child_ok_def)
      moreover have "take (Suc (bits pn)) (P c) = take (Suc (bits pn)) (P m)"
        using pn(1) Pc by (metis Suc_leI take_take_le)
      ultimately show ?thesis using cc pa pn(1) cn(2) by (simp add: child_ok_def)
    qed
    have otherlink: "child_ok s' P p pn side link" if "child_ok s P p pn side link" "link \<noteq> Some m"
      for side link
      unfolding child_ok_def
    proof (intro allI impI)
      fix c' assume l: "link = Some c'"
      with that(1) obtain cn' where cn': "cell s c' = Some cn'" "parent cn' = Some p"
        "bits pn < bits cn'" "take (Suc (bits pn)) (P c') = P p @ [side]"
        by (auto simp: child_ok_def)
      have 1: "c' \<noteq> m" using l that(2) by auto
      have 2: "c' \<noteq> c" using cn' c cn pn by auto
      have 3: "Some c' \<noteq> parent mn" using pa cn' ps by auto
      have 4: "left mn \<noteq> Some c'" "right mn \<noteq> Some c'"
        using inv_child_parent[OF inv m, of c'] cn' pn by auto
      have "cell s' c' = Some cn'" using keep[of c' cn'] cn'(1) 1 2 3 4 by simp
      then show "\<exists>cn''. cell s' c' = Some cn'' \<and> parent cn'' = Some p \<and> bits pn < bits cn'' \<and>
          take (Suc (bits pn)) (P c') = P p @ [side]"
        using cn' by auto
    qed
    have up: "parent_ok s' p pn"
      unfolding parent_ok_def
    proof (intro conjI allI impI)
      assume "parent pn = None"
      then have "root s = Some p" using okpn by (simp add: node_ok_def parent_ok_def)
      then show "root s' = Some p" using rt pa by simp
    next
      fix q assume q: "parent pn = Some q"
      from inv_parent_Some[OF inv ps q] obtain qn where
        qn: "cell s q = Some qn" "left qn = Some p \<or> right qn = Some p" "bits qn < bits pn" by auto
      have 1: "q \<noteq> m" "q \<noteq> c" using qn m c cn pn by auto
      have 2: "Some q \<noteq> parent mn" using pa qn ps by auto
      have 3: "left mn \<noteq> Some q" "right mn \<noteq> Some q"
        using inv_child_parent[OF inv m, of q] qn pn by auto
      have "cell s' q = Some qn" using keep[of q qn] qn(1) 1 2 3 by simp
      then show "\<exists>qn. cell s' q = Some qn \<and> (left qn = Some p \<or> right qn = Some p)"
        using qn by auto
    qed
    have lr: "left pn = Some m \<Longrightarrow> right pn \<noteq> Some m"
      using inv_left_right_neq[OF inv ps] by auto
    show ?thesis
    proof (cases "right pn = Some m")
      case True
      then have l: "left pn \<noteq> Some m" using lr by auto
      have "key_ok N P p (pn\<lparr>right := Some c\<rparr>)"
        using okpn by (auto simp: node_ok_def key_ok_def)
      then show ?thesis
        using True okpn up toc[of True] otherlink[of False "left pn"] l
        by (simp add: relink_def node_ok_def child_ok_def parent_ok_def)
    next
      case False
      then have l: "left pn = Some m" using pn(4) by simp
      have "key_ok N P p (pn\<lparr>left := Some c\<rparr>)"
        using okpn by (auto simp: node_ok_def key_ok_def)
      then show ?thesis
        using False l okpn up toc[of False] otherlink[of True "right pn"]
        by (simp add: relink_def node_ok_def child_ok_def parent_ok_def)
    qed
  qed
  have nodes: "\<forall>x n. cell s' x = Some n \<longrightarrow> node_ok N s' P x n"
  proof (intro allI impI)
    fix x n assume x: "cell s' x = Some n"
    consider "x = c" | "Some x = parent mn" | "x \<noteq> c" "Some x \<noteq> parent mn" by blast
    then show "node_ok N s' P x n"
    proof cases
      case 1 then show ?thesis using x cc okc' by simp
    next
      case 2
      from par[OF 2[symmetric]] obtain pn where "cell s x = Some pn"
        "cell s' x = Some (relink pn m (Some c))" by auto
      then show ?thesis using okp[OF 2[symmetric]] x by simp
    next
      case 3
      then show ?thesis using away[OF x] by simp
    qed
  qed
  have root: "\<forall>r. root s' = Some r \<longrightarrow> (\<exists>rn. cell s' r = Some rn \<and> parent rn = None)"
  proof (intro allI impI)
    fix r assume r: "root s' = Some r"
    show "\<exists>rn. cell s' r = Some rn \<and> parent rn = None"
    proof (cases "parent mn")
      case None
      then show ?thesis using r rt cc by simp
    next
      case (Some p)
      then have "root s = Some r" using r rt by simp
      from inv_root[OF inv this] obtain rn where rn: "cell s r = Some rn" "parent rn = None" by auto
      have 1: "r \<noteq> m" "r \<noteq> c" using rn m c Some cn by auto
      have 2: "left mn \<noteq> Some r" "right mn \<noteq> Some r"
        using inv_child_parent[OF inv m, of r] rn by auto
      show ?thesis
      proof (cases "r = p")
        case True
        from par[OF Some] True rn show ?thesis by (auto simp: relink_def)
      next
        case False
        then have "cell s' r = cell s r" using keep[of r rn] rn(1) 1 2 Some by simp
        then show ?thesis using rn by simp
      qed
    qed
  qed
  show ?thesis using nodes root by simp
qed

subsection \<open>removeNode, case by case\<close>

lemma remove_two_children:
  assumes "cell s a = Some an" and "right an \<noteq> None" and "left an \<noteq> None"
  shows "removeNode junk a s = Inr (store a (an\<lparr>key := BitArray_default junk\<rparr>) s)"
  using assms by (simp add: removeNode_def)

lemma remove_last_node:
  assumes "cell s a = Some an" and "right an = None" and "left an = None" and "parent an = None"
  shows "removeNode junk a s = Inl DoubleFree"
  using assms by (simp add: removeNode_def delete_node_def)

lemma remove_leaf_eval:
  assumes a: "cell s a = Some an" and leaf: "right an = None" "left an = None"
    and pa: "parent an = Some p" and p: "cell s p = Some pn" and ne: "p \<noteq> a"
  shows "removeNode junk a s =
     (let s3 = store p (if right pn = Some a then pn\<lparr>right := None\<rparr> else pn\<lparr>left := None\<rparr>)
                 ((free a s)\<lparr>numNodes := decr (numNodes s)\<rparr>);
          child = (if right pn = Some a then left pn else right pn)
      in if \<not> key_empty (key pn) then Inr s3
         else and_then (replace_in_parent p child s3) (\<lambda>s4.
              and_then (upd_ptr child (\<lambda>x. x\<lparr>parent := parent pn\<rparr>) s4) (\<lambda>s5.
              and_then (delete_node p s5) (\<lambda>s6.
              Inr (s6\<lparr>numNodes := decr (numNodes s6)\<rparr>)))))"
  using assms cell_Some_less[OF p]
  by (simp add: removeNode_def delete_node_def Let_def upd_def cell_store)

lemma remove_leaf_data_parent:
  assumes a: "cell s a = Some an" and leaf: "right an = None" "left an = None"
    and pa: "parent an = Some p" and p: "cell s p = Some pn" and ne: "p \<noteq> a"
    and data: "\<not> key_empty (key pn)"
  shows "\<exists>s'. removeNode junk a s = Inr s' \<and>
     cell s' = (cell s)(a := None, p \<mapsto> (if right pn = Some a then pn\<lparr>right := None\<rparr>
                                         else pn\<lparr>left := None\<rparr>)) \<and>
     root s' = root s \<and> numNodes s' = decr (numNodes s) \<and> length (heap s') = length (heap s)"
  using remove_leaf_eval[OF a leaf pa p ne, of junk] data cell_Some_less[OF p]
  by (simp add: Let_def cell_store)

lemma remove_leaf_glue_parent:
  assumes a: "cell s a = Some an" and leaf: "right an = None" "left an = None"
    and pa: "parent an = Some p" and p: "cell s p = Some pn" and ne: "p \<noteq> a"
    and glue: "key_empty (key pn)"
    and child: "(if right pn = Some a then left pn else right pn) = Some c"
    and c: "cell s c = Some cn" "c \<noteq> a" "c \<noteq> p"
    and g: "\<And>g. parent pn = Some g \<Longrightarrow> g \<noteq> a \<and> g \<noteq> p \<and> g \<noteq> c \<and> cell s g \<noteq> None"
  shows "\<exists>s'. removeNode junk a s = Inr s' \<and>
     cell s' a = None \<and> cell s' p = None \<and> cell s' c = Some (cn\<lparr>parent := parent pn\<rparr>) \<and>
     (\<forall>g gn. parent pn = Some g \<longrightarrow> cell s g = Some gn \<longrightarrow>
         cell s' g = Some (relink gn p (Some c))) \<and>
     (\<forall>x. x \<noteq> a \<longrightarrow> x \<noteq> p \<longrightarrow> x \<noteq> c \<longrightarrow> Some x \<noteq> parent pn \<longrightarrow> cell s' x = cell s x) \<and>
     root s' = (if parent pn = None then Some c else root s) \<and>
     numNodes s' = decr (decr (numNodes s)) \<and> length (heap s') = length (heap s)"
proof -
  define pn3 where "pn3 = (if right pn = Some a then pn\<lparr>right := None\<rparr> else pn\<lparr>left := None\<rparr>)"
  define s3 where "s3 = store p pn3 ((free a s)\<lparr>numNodes := decr (numNodes s)\<rparr>)"
  have pl: "p < length (heap s)" by (rule cell_Some_less[OF p])
  have c3: "cell s3 = (cell s)(a := None, p \<mapsto> pn3)"
    unfolding s3_def using pl by (simp add: cell_store)
  have p3: "cell s3 p = Some pn3" by (simp add: c3)
  have par3: "parent pn3 = parent pn" by (simp add: pn3_def)
  have g3: "\<And>g. parent pn3 = Some g \<Longrightarrow> g \<noteq> p \<and> cell s3 g \<noteq> None"
    using g by (auto simp: c3 par3)
  from replace_in_parent_eval[OF p3 g3, of "Some c"] obtain s4 where
    s4: "replace_in_parent p (Some c) s3 = Inr s4"
      "\<forall>g gn. parent pn3 = Some g \<longrightarrow> cell s3 g = Some gn \<longrightarrow>
          cell s4 g = Some (relink gn p (Some c))"
      "\<forall>x. Some x \<noteq> parent pn3 \<longrightarrow> cell s4 x = cell s3 x"
      "root s4 = (if parent pn3 = None then Some c else root s3)"
      "numNodes s4 = numNodes s3" "length (heap s4) = length (heap s3)" by blast
  have cg: "Some c \<noteq> parent pn" "Some p \<noteq> parent pn" "Some a \<noteq> parent pn"
    using g by (metis)+
  have c4: "cell s4 c = Some cn" using s4(3) cg c by (simp add: par3 c3)
  have cl: "c < length (heap s4)" by (rule cell_Some_less[OF c4])
  define s5 where "s5 = store c (cn\<lparr>parent := parent pn\<rparr>) s4"
  have c5: "cell s5 = (cell s4)(c \<mapsto> cn\<lparr>parent := parent pn\<rparr>)"
    unfolding s5_def using cl by (simp add: cell_store)
  have p5: "cell s5 p = Some pn3" using s4(3) cg c by (simp add: c5 par3 c3)
  define s' where "s' = (free p s5)\<lparr>numNodes := decr (numNodes s5)\<rparr>"
  have eval: "removeNode junk a s = Inr s'"
    using remove_leaf_eval[OF a leaf pa p ne, of junk] glue child s4(1) c4 p5
    unfolding s'_def s5_def s3_def pn3_def
    by (simp add: Let_def upd_ptr_def upd_def delete_node_def)
  have cs': "cell s' = (cell s5)(p := None)" by (simp add: s'_def)
  have 1: "cell s' a = None" using s4(3) cg ne c by (simp add: cs' c5 par3 c3)
  have 2: "cell s' p = None" by (simp add: cs')
  have 3: "cell s' c = Some (cn\<lparr>parent := parent pn\<rparr>)" using c by (simp add: cs' c5)
  have 4: "\<forall>g gn. parent pn = Some g \<longrightarrow> cell s g = Some gn \<longrightarrow>
         cell s' g = Some (relink gn p (Some c))"
    using s4(2) g by (auto simp: cs' c5 par3 c3)
  have 5: "\<forall>x. x \<noteq> a \<longrightarrow> x \<noteq> p \<longrightarrow> x \<noteq> c \<longrightarrow> Some x \<noteq> parent pn \<longrightarrow> cell s' x = cell s x"
    using s4(3) by (simp add: cs' c5 par3 c3)
  have 6: "root s' = (if parent pn = None then Some c else root s)"
    using s4(4) by (simp add: s'_def s5_def par3 s3_def)
  have 7: "numNodes s' = decr (decr (numNodes s))" "length (heap s') = length (heap s)"
    using s4(5,6) by (simp_all add: s'_def s5_def s3_def)
  show ?thesis using eval 1 2 3 4 5 6 7 by blast
qed

lemma remove_one_child:
  assumes a: "cell s a = Some an" and one: "\<not> (right an \<noteq> None \<and> left an \<noteq> None)"
    "\<not> (right an = None \<and> left an = None)"
    and child: "(if right an \<noteq> None then right an else left an) = Some c"
    and c: "cell s c = Some cn" "c \<noteq> a"
    and p: "\<And>p. parent an = Some p \<Longrightarrow> p \<noteq> a \<and> p \<noteq> c \<and> cell s p \<noteq> None"
  shows "\<exists>s'. removeNode junk a s = Inr s' \<and>
     cell s' a = None \<and> cell s' c = Some (cn\<lparr>parent := parent an\<rparr>) \<and>
     (\<forall>p pn. parent an = Some p \<longrightarrow> cell s p = Some pn \<longrightarrow>
         cell s' p = Some (relink pn a (Some c))) \<and>
     (\<forall>x. x \<noteq> a \<longrightarrow> x \<noteq> c \<longrightarrow> Some x \<noteq> parent an \<longrightarrow> cell s' x = cell s x) \<and>
     root s' = (if parent an = None then Some c else root s) \<and>
     numNodes s' = decr (numNodes s) \<and> length (heap s') = length (heap s)"
proof (cases "parent an")
  case None
  then show ?thesis
    using a one child c cell_Some_less[OF c(1)]
    by (auto simp: removeNode_def Let_def upd_ptr_def upd_def delete_node_def cell_store)
next
  case (Some p')
  from p[OF Some] obtain pn where pn: "p' \<noteq> a" "p' \<noteq> c" "cell s p' = Some pn" by auto
  show ?thesis
    using Some a one child c pn cell_Some_less[OF c(1)] cell_Some_less[OF pn(3)]
    by (auto simp: removeNode_def Let_def upd_ptr_def upd_def delete_node_def cell_store
        get_def relink_def)
qed

subsection \<open>removeNode keeps the invariant\<close>

lemma decr_pos: "0 < n \<Longrightarrow> decr n = n - 1"
  by (simp add: decr_def)

lemma live_remove_card:
  assumes "cell s a = Some n" and "live s' = live s - {a}"
  shows "card (live s') = card (live s) - 1" and "0 < card (live s)"
proof -
  have a: "a \<in> live s" using assms(1) by (simp add: live_def)
  show "card (live s') = card (live s) - 1" using a assms(2) by simp
  show "0 < card (live s)" using a by (auto simp: card_gt_0_iff)
qed

lemma trie_inv_remove_leaf:
  fixes s s' :: "'v trie"
  assumes inv: "trie_inv N P s" and a: "cell s a = Some an"
    and leaf: "right an = None" "left an = None"
    and pa: "parent an = Some p" and p: "cell s p = Some pn" and data: "\<not> key_empty (key pn)"
    and c: "cell s' = (cell s)(a := None, p \<mapsto> (if right pn = Some a then pn\<lparr>right := None\<rparr>
                                         else pn\<lparr>left := None\<rparr>))"
    and rt: "root s' = root s" and num: "numNodes s' = decr (numNodes s)"
  shows "trie_inv N P s'"
proof -
  define pn' where "pn' = (if right pn = Some a then pn\<lparr>right := None\<rparr> else pn\<lparr>left := None\<rparr>)"
  from inv_parent_Some[OF inv a pa] p have
    link: "left pn = Some a \<or> right pn = Some a" and bl: "bits pn < bits an" by auto
  have ne: "p \<noteq> a" using bl a p by auto
  have c': "cell s' = (cell s)(a := None, p \<mapsto> pn')" using c by (simp add: pn'_def)
  have ca: "cell s' a = None" using ne by (simp add: c')
  have cp: "cell s' p = Some pn'" by (simp add: c')
  have co: "\<And>x. x \<noteq> a \<Longrightarrow> x \<noteq> p \<Longrightarrow> cell s' x = cell s x" by (simp add: c')
  have lr: "left pn = Some a \<Longrightarrow> right pn \<noteq> Some a"
    using inv_left_right_neq[OF inv p] by auto
  have same: "parent pn' = parent pn" "bits pn' = bits pn" "key pn' = key pn"
    by (simp_all add: pn'_def)
  have links: "left pn' = (if left pn = Some a then None else left pn)"
    "right pn' = (if right pn = Some a then None else right pn)"
    using link lr by (auto simp: pn'_def)
  have nokid: "\<not> (cell s q = Some qn \<and> parent qn = Some a)" for q qn
  proof
    assume h: "cell s q = Some qn \<and> parent qn = Some a"
    from inv_parent_Some[OF inv _ conjunct2[OF h]] h a leaf show False by auto
  qed
  have old: "node_ok N s' P x n" if xs: "cell s x = Some n" and xa: "x \<noteq> a" and xp: "x \<noteq> p" for x n
  proof (rule node_ok_unchanged[OF inv_node[OF inv xs] refl xs])
    fix c' cn assume h: "cell s c' = Some cn" "parent cn = Some x"
    have 1: "c' \<noteq> a" using h a pa xp by auto
    show "\<exists>cn'. cell s' c' = Some cn' \<and> parent cn' = Some x \<and> bits cn' = bits cn"
    proof (cases "c' = p")
      case True then show ?thesis using h p cp same by auto
    next
      case False then show ?thesis using h co[OF 1 False] by simp
    qed
  next
    fix q qn assume h: "cell s q = Some qn" "parent n = Some q"
    have 1: "q \<noteq> a" using nokid[of x n] xs h by auto
    show "\<exists>qn'. cell s' q = Some qn' \<and> (left qn = Some x \<longrightarrow> left qn' = Some x) \<and>
              (right qn = Some x \<longrightarrow> right qn' = Some x)"
    proof (cases "q = p")
      case True then show ?thesis using h p cp links xa by auto
    next
      case False then show ?thesis using h co[OF 1 False] by simp
    qed
  next
    show "root s = Some x \<Longrightarrow> root s' = Some x" using rt by simp
  qed
  have okp: "node_ok N s P p pn" by (rule inv_node[OF inv p])
  have kid: "child_ok s' P p pn' side (if link = Some a then None else link)"
    if ch: "child_ok s P p pn side link" for side link
    unfolding child_ok_def
  proof (intro allI impI)
    fix c' assume l: "(if link = Some a then None else link) = Some c'"
    then have l': "link = Some c'" "c' \<noteq> a" by (auto split: if_splits)
    with ch obtain cn' where cn': "cell s c' = Some cn'" "parent cn' = Some p"
      "bits pn < bits cn'" "take (Suc (bits pn)) (P c') = P p @ [side]"
      by (auto simp: child_ok_def)
    have "c' \<noteq> p" using cn' p by auto
    then have "cell s' c' = Some cn'" using co[OF l'(2)] cn' by simp
    then show "\<exists>cn. cell s' c' = Some cn \<and> parent cn = Some p \<and> bits pn' < bits cn \<and>
        take (Suc (bits pn')) (P c') = P p @ [side]"
      using cn' same by auto
  qed
  have parp: "parent_ok s' p pn'"
    unfolding parent_ok_def
  proof (intro conjI allI impI)
    assume "parent pn' = None"
    then show "root s' = Some p" using okp rt same by (simp add: node_ok_def parent_ok_def)
  next
    fix q assume q: "parent pn' = Some q"
    then have q': "parent pn = Some q" using same by simp
    from inv_parent_Some[OF inv p q'] obtain qn where
      qn: "cell s q = Some qn" "left qn = Some p \<or> right qn = Some p" "bits qn < bits pn" by auto
    have 1: "q \<noteq> a" using nokid[of p pn] p q' by auto
    have 2: "q \<noteq> p" using qn p by auto
    show "\<exists>qn. cell s' q = Some qn \<and> (left qn = Some p \<or> right qn = Some p)"
      using co[OF 1 2] qn by auto
  qed
  have "key_ok N P p pn'" using okp data same by (simp add: node_ok_def key_ok_def)
  then have okp': "node_ok N s' P p pn'"
    using okp kid[of False "left pn"] kid[of True "right pn"] parp same links
    by (simp add: node_ok_def)
  have nodes: "\<forall>x n. cell s' x = Some n \<longrightarrow> node_ok N s' P x n"
  proof (intro allI impI)
    fix x n assume x: "cell s' x = Some n"
    have xa: "x \<noteq> a" using x ca by auto
    show "node_ok N s' P x n"
    proof (cases "x = p")
      case True then show ?thesis using x cp okp' by simp
    next
      case False
      then show ?thesis using old[of x n] x co[OF xa False] xa by simp
    qed
  qed
  have live: "live s' = live s - {a}"
    using p ne by (auto simp: live_def c' simp del: not_None_eq)
  from live_remove_card[OF a live] have num': "numNodes s' = card (live s')"
    using num inv by (simp add: trie_inv_def decr_pos)
  have rs: "root s \<noteq> None" using inv a by (auto simp: trie_inv_def live_def)
  have root: "\<forall>r. root s' = Some r \<longrightarrow> (\<exists>rn. cell s' r = Some rn \<and> parent rn = None)"
  proof (intro allI impI)
    fix r assume "root s' = Some r"
    then have r: "root s = Some r" using rt by simp
    from inv_root[OF inv r] obtain rn where rn: "cell s r = Some rn" "parent rn = None" by auto
    have ra: "r \<noteq> a" using rn a pa by auto
    show "\<exists>rn. cell s' r = Some rn \<and> parent rn = None"
    proof (cases "r = p")
      case True then show ?thesis using rn p cp same by auto
    next
      case False then show ?thesis using co[OF ra False] rn by simp
    qed
  qed
  show ?thesis
    using inv nodes root num' rs rt by (auto simp: trie_inv_def)
qed

lemma trie_inv_unsplice:
  fixes s s' :: "'v trie"
  assumes inv: "trie_inv N P s"
    and nodes: "(\<forall>x n. cell s' x = Some n \<longrightarrow> node_ok N s' P x n) \<and>
         (\<forall>r. root s' = Some r \<longrightarrow> (\<exists>rn. cell s' r = Some rn \<and> parent rn = None))"
    and rt: "root s' \<noteq> None"
    and num: "numNodes s' = card (live s')"
  shows "trie_inv N P s'"
  using inv nodes rt num by (auto simp: trie_inv_def)

lemma removeNode_inv:
  fixes s s' :: "'v trie"
  assumes inv: "trie_inv N P s" and a: "cell s a = Some an"
    and r: "removeNode junk a s = Inr s'"
  shows "trie_inv N P s' \<and> length (heap s') = length (heap s) \<and> live s' \<subseteq> live s"
proof -
  have rs: "root s \<noteq> None" using inv a by (auto simp: trie_inv_def live_def)
  have num: "numNodes s = card (live s)" using inv by (simp add: trie_inv_def)
  consider (two) "right an \<noteq> None" "left an \<noteq> None"
    | (leaf) "right an = None" "left an = None"
    | (one) "\<not> (right an \<noteq> None \<and> left an \<noteq> None)" "\<not> (right an = None \<and> left an = None)"
    by (cases "right an"; cases "left an") auto
  then show ?thesis
  proof cases
    case two
    let ?n = "an\<lparr>key := BitArray_default junk\<rparr>"
    have s': "s' = store a ?n s" using remove_two_children[OF a two, of junk] r by simp
    have "key_ok N P a ?n" using two by (simp add: key_ok_def key_empty_def BitArray_default_def)
    from trie_inv_store[OF inv a _ _ _ _ this] have "trie_inv N P s'" by (simp add: s')
    moreover have "cell s' = (cell s)(a \<mapsto> ?n)"
      using cell_Some_less[OF a] by (simp add: s' cell_store)
    then have "live s' \<subseteq> live s" using a by (auto simp: live_def)
    ultimately show ?thesis by (simp add: s')
  next
    case leaf
    show ?thesis
    proof (cases "parent an")
      case None
      from remove_last_node[OF a leaf None, of junk] r show ?thesis by simp
    next
      case (Some p)
      from inv_parent_Some[OF inv a Some] obtain pn where
        p: "cell s p = Some pn" and link: "left pn = Some a \<or> right pn = Some a"
        and bl: "bits pn < bits an" by auto
      have ne: "p \<noteq> a" using bl a p by auto
      show ?thesis
      proof (cases "key_empty (key pn)")
        case False
        from remove_leaf_data_parent[OF a leaf Some p ne False, of junk] r have
          c: "cell s' = (cell s)(a := None, p \<mapsto> (if right pn = Some a then pn\<lparr>right := None\<rparr>
                                         else pn\<lparr>left := None\<rparr>))"
          and rt: "root s' = root s" and n: "numNodes s' = decr (numNodes s)"
          and len: "length (heap s') = length (heap s)" by auto
        have "trie_inv N P s'" by (rule trie_inv_remove_leaf[OF inv a leaf Some p False c rt n])
        moreover have "live s' \<subseteq> live s" using p by (auto simp: live_def c)
        ultimately show ?thesis using len by simp
      next
        case True
        define child where "child = (if right pn = Some a then left pn else right pn)"
        show ?thesis
        proof (cases child)
          case None
          have "removeNode junk a s =
              and_then (replace_in_parent p None
                 (store p (if right pn = Some a then pn\<lparr>right := None\<rparr> else pn\<lparr>left := None\<rparr>)
                 ((free a s)\<lparr>numNodes := decr (numNodes s)\<rparr>))) (\<lambda>s4. Inl NullDeref)"
            using remove_leaf_eval[OF a leaf Some p ne, of junk] True None
            by (simp add: Let_def child_def upd_ptr_def)
          then show ?thesis using r by (auto simp: and_then_def split: sum.splits)
        next
          case (Some c)
          have ch: "(if right pn = Some a then left pn else right pn) = Some c"
            using Some by (simp add: child_def)
          have lr: "left pn = Some a \<Longrightarrow> right pn \<noteq> Some a"
            using inv_left_right_neq[OF inv p] by auto
          have pc: "left pn = Some c \<or> right pn = Some c" and ca: "c \<noteq> a"
            using ch link lr by (auto split: if_splits)
          from inv_child_parent[OF inv p pc] obtain cn where
            cn: "cell s c = Some cn" "parent cn = Some p" "bits pn < bits cn" by auto
          have cp: "c \<noteq> p" using cn p by auto
          have kids: "l = a \<or> l = c" if "left pn = Some l \<or> right pn = Some l" for l
            using that ch link by (auto split: if_splits)
          have g: "g \<noteq> a \<and> g \<noteq> p \<and> g \<noteq> c \<and> cell s g \<noteq> None" if "parent pn = Some g" for g
          proof -
            from inv_parent_Some[OF inv p that] obtain gn where
              gn: "cell s g = Some gn" "bits gn < bits pn" by auto
            then show ?thesis using a p cn bl by auto
          qed
          from remove_leaf_glue_parent[OF a leaf \<open>parent an = Some p\<close> p ne True ch cn(1) ca cp g,
              of junk] r
          have d: "cell s' a = None" "cell s' p = None" "cell s' c = Some (cn\<lparr>parent := parent pn\<rparr>)"
            "\<And>g gn. parent pn = Some g \<Longrightarrow> cell s g = Some gn \<Longrightarrow>
                cell s' g = Some (relink gn p (Some c))"
            "\<And>x. x \<noteq> a \<Longrightarrow> x \<noteq> p \<Longrightarrow> x \<noteq> c \<Longrightarrow> Some x \<noteq> parent pn \<Longrightarrow> cell s' x = cell s x"
            "root s' = (if parent pn = None then Some c else root s)"
            "numNodes s' = decr (decr (numNodes s))" "length (heap s') = length (heap s)"
            by auto
          have nodes: "(\<forall>x n. cell s' x = Some n \<longrightarrow> node_ok N s' P x n) \<and>
             (\<forall>r. root s' = Some r \<longrightarrow> (\<exists>rn. cell s' r = Some rn \<and> parent rn = None))"
          proof (rule unsplice_nodes_ok[OF inv p cn(1) pc _ d(2) d(3) d(4) _ d(6)])
            fix l assume "left pn = Some l \<or> right pn = Some l" "l \<noteq> c"
            then have "l = a" using kids by auto
            then show "cell s' l = None \<and> (\<exists>ln. cell s l = Some ln \<and> left ln = None \<and> right ln = None)"
              using d(1) a leaf by simp
          next
            fix x assume "x \<noteq> p" "x \<noteq> c" "Some x \<noteq> parent pn" "left pn \<noteq> Some x" "right pn \<noteq> Some x"
            then show "cell s' x = cell s x" using d(5)[of x] link by auto
          qed
          have live: "live s' = live s - {a, p}"
          proof (rule set_eqI)
            fix x
            show "(x \<in> live s') = (x \<in> live s - {a, p})"
            proof (cases "x = a \<or> x = p \<or> x = c \<or> Some x = parent pn")
              case False
              then show ?thesis using d(5)[of x] by (simp add: live_def)
            next
              case True
              then show ?thesis
                using d(1,2,3) cn(1) ca cp g[of x] d(4)[of x]
                by (auto simp: live_def simp del: not_None_eq)
            qed
          qed
          have "a \<in> live s" "p \<in> live s" using a p by (simp_all add: live_def)
          then have "card (live s - {a, p}) = card (live s) - 2" "2 \<le> card (live s)"
            using ne card_Diff_subset[of "{a, p}" "live s"]
              card_mono[of "live s" "{a, p}"] by auto
          then have c2: "card (live s') = card (live s) - 2" "0 < card (live s)"
            "0 < card (live s) - 1" using live by simp_all
          have "decr (decr (card (live s))) = card (live s) - 1 - 1"
            using c2(2,3) by (simp only: decr_pos)
          then have "numNodes s' = card (live s')"
            using d(7) num c2(1) by simp
          moreover have "root s' \<noteq> None" using d(6) rs by simp
          ultimately have "trie_inv N P s'" using trie_inv_unsplice[OF inv nodes] by simp
          then show ?thesis using d(8) live by auto
        qed
      qed
    qed
  next
    case one
    define child where "child = (if right an \<noteq> None then right an else left an)"
    from one obtain c where ch: "(if right an \<noteq> None then right an else left an) = Some c"
      by (cases "right an"; cases "left an") auto
    have ac: "left an = Some c \<or> right an = Some c" using ch by (auto split: if_splits)
    from inv_child_parent[OF inv a ac] obtain cn where
      cn: "cell s c = Some cn" "parent cn = Some a" "bits an < bits cn" by auto
    have ca: "c \<noteq> a" using cn a by auto
    have g: "p \<noteq> a \<and> p \<noteq> c \<and> cell s p \<noteq> None" if "parent an = Some p" for p
    proof -
      from inv_parent_Some[OF inv a that] obtain pn where
        "cell s p = Some pn" "bits pn < bits an" by auto
      then show ?thesis using a cn by auto
    qed
    from remove_one_child[OF a one ch cn(1) ca g, of junk] r
    have d: "cell s' a = None" "cell s' c = Some (cn\<lparr>parent := parent an\<rparr>)"
      "\<And>p pn. parent an = Some p \<Longrightarrow> cell s p = Some pn \<Longrightarrow>
          cell s' p = Some (relink pn a (Some c))"
      "\<And>x. x \<noteq> a \<Longrightarrow> x \<noteq> c \<Longrightarrow> Some x \<noteq> parent an \<Longrightarrow> cell s' x = cell s x"
      "root s' = (if parent an = None then Some c else root s)"
      "numNodes s' = decr (numNodes s)" "length (heap s') = length (heap s)"
      by auto
    have kids: "l = c" if "left an = Some l \<or> right an = Some l" for l
      using that ch one by (auto split: if_splits)
    have nodes: "(\<forall>x n. cell s' x = Some n \<longrightarrow> node_ok N s' P x n) \<and>
       (\<forall>r. root s' = Some r \<longrightarrow> (\<exists>rn. cell s' r = Some rn \<and> parent rn = None))"
    proof (rule unsplice_nodes_ok[OF inv a cn(1) ac _ d(1) d(2) d(3) _ d(5)])
      fix l assume "left an = Some l \<or> right an = Some l" "l \<noteq> c"
      then show "cell s' l = None \<and> (\<exists>ln. cell s l = Some ln \<and> left ln = None \<and> right ln = None)"
        using kids by auto
    next
      fix x assume "x \<noteq> a" "x \<noteq> c" "Some x \<noteq> parent an" "left an \<noteq> Some x" "right an \<noteq> Some x"
      then show "cell s' x = cell s x" using d(4)[of x] by auto
    qed
    have live: "live s' = live s - {a}"
    proof (rule set_eqI)
      fix x
      show "(x \<in> live s') = (x \<in> live s - {a})"
      proof (cases "x = a \<or> x = c \<or> Some x = parent an")
        case False
        then show ?thesis using d(4)[of x] by (simp add: live_def)
      next
        case True
        then show ?thesis
          using d(1,2) cn(1) ca g[of x] d(3)[of x]
          by (auto simp: live_def simp del: not_None_eq)
      qed
    qed
    from live_remove_card[OF a live] have "numNodes s' = card (live s')"
      using d(6) num by (simp add: decr_pos)
    moreover have "root s' \<noteq> None" using d(5) rs by simp
    ultimately have "trie_inv N P s'" using trie_inv_unsplice[OF inv nodes] by simp
    then show ?thesis using d(7) live by auto
  qed
qed

subsection \<open>The invariant holds in every trie a program builds\<close>

lemma trie_inv_BinaryTrie: "0 < N \<Longrightarrow> trie_inv N P BinaryTrie"
  by (simp add: trie_inv_def BinaryTrie_def live_def cell_def)

lemma assign_inv:
  assumes inv: "trie_inv N P s" and r: "assign a v s = Inr s'"
  shows "trie_inv N P s' \<and> length (heap s') = length (heap s) \<and> live s' = live s \<and>
         numNodes s' = numNodes s"
proof -
  from r obtain an where a: "cell s a = Some an" and s': "s' = store a (an\<lparr>data := Some v\<rparr>) s"
    by (auto simp: assign_def upd_def and_then_eq_Inr get_eq_Inr split: option.splits)
  have "key_ok N P a (an\<lparr>data := Some v\<rparr>)"
    using inv_key[OF inv a] by (auto simp: key_ok_def)
  from trie_inv_store[OF inv a _ _ _ _ this] have "trie_inv N P s'" by (simp add: s')
  moreover have "cell s' = (cell s)(a \<mapsto> an\<lparr>data := Some v\<rparr>)"
    using cell_Some_less[OF a] by (simp add: s' cell_store)
  then have "live s' = live s" using a by (auto simp: live_def)
  ultimately show ?thesis by (simp add: s')
qed

lemma assign_total:
  "cell s a = Some an \<Longrightarrow> \<exists>s'. assign a v s = Inr s'"
  by (simp add: assign_def)

lemma erase_inv:
  assumes inv: "trie_inv N P s" and k: "wf_key N k" and r: "erase junk k s = Inr (Returns s')"
  shows "trie_inv N P s' \<and> length (heap s') = length (heap s) \<and> live s' \<subseteq> live s"
proof -
  from searchExact_spec[OF inv k] obtain res where
    res: "searchExact k s = Inr res" "\<forall>a. res = Some a \<longrightarrow> holds_key s a k" by auto
  from r res(1) obtain a where a: "res = Some a" and rm: "removeNode junk a s = Inr s'"
    by (auto simp: erase_def and_then_eq_Inr split: option.splits)
  from res(2) a obtain an where "cell s a = Some an" by (auto simp: holds_key_def)
  from removeNode_inv[OF inv this rm] show ?thesis .
qed

lemma reachable_inv: "reachable N s \<Longrightarrow> \<exists>P. trie_inv N P s"
proof (induction rule: reachable.induct)
  case reach_new
  then show ?case using trie_inv_BinaryTrie by blast
next
  case (reach_subscript s k junk a s')
  then obtain P where "trie_inv N P s" by auto
  from lookupNode_inv[OF this reach_subscript(2), of junk] reach_subscript(3)
  show ?case by (auto simp: subscript_def)
next
  case (reach_assign s a v s')
  then obtain P where "trie_inv N P s" by auto
  from assign_inv[OF this reach_assign(2)] show ?case by auto
next
  case (reach_erase s k junk s')
  then obtain P where "trie_inv N P s" by auto
  from erase_inv[OF this reach_erase(2,3)] show ?case by auto
qed

lemma insert_all_bound:
  assumes "trie_inv N P s" and "\<forall>kv \<in> set kvs. wf_key N (fst kv)"
  shows "\<exists>s' P'. insert_all junk kvs s = Inr s' \<and> trie_inv N P' s' \<and>
           numNodes s' \<le> numNodes s + 2 * length kvs \<and>
           length (heap s') \<le> length (heap s) + 2 * length kvs"
  using assms
proof (induction kvs arbitrary: s P)
  case Nil
  then show ?case by auto
next
  case (Cons kv kvs)
  then have k: "wf_key N (fst kv)" by simp
  from lookupNode_inv[OF Cons.prems(1) k, of junk] obtain b s1 P1 where
    s1: "lookupNode junk (fst kv) s = Inr (b, s1)" "trie_inv N P1 s1"
      "ins_post P P1 (fst kv) s b s1" "length (heap s1) \<le> length (heap s) + 2"
      "numNodes s1 \<le> numNodes s + 2" by blast
  from s1(3) obtain bn where "cell s1 b = Some bn" by (auto simp: ins_post_def)
  from assign_total[OF this, of "snd kv"] obtain s2 where s2: "assign b (snd kv) s1 = Inr s2" by auto
  from assign_inv[OF s1(2) s2] have i2: "trie_inv N P1 s2" "length (heap s2) = length (heap s1)"
    "numNodes s2 = numNodes s1" by auto
  from Cons.IH[OF i2(1)] Cons.prems(2) obtain s' P' where
    s': "insert_all junk kvs s2 = Inr s'" "trie_inv N P' s'"
      "numNodes s' \<le> numNodes s2 + 2 * length kvs"
      "length (heap s') \<le> length (heap s2) + 2 * length kvs" by auto
  have "insert_all junk (kv # kvs) s = Inr s'"
    using s1(1) s2 s'(1) by (simp add: subscript_def)
  moreover have "numNodes s' \<le> numNodes s + 2 * length (kv # kvs)"
    using s'(3) i2(3) s1(5) by simp
  moreover have "length (heap s') \<le> length (heap s) + 2 * length (kv # kvs)"
    using s'(4) i2(2) s1(4) by simp
  ultimately show ?case using s'(2) by blast
qed

subsection \<open>erase and the allocations\<close>

text \<open>Two small tries for the examples: the keys \<open>10.0.0.0/8\<close> and \<open>10.1.0.0/16\<close>.\<close>

lemma reachable_one_key:
  "reachable 4
     (\<lparr>heap = [Some \<lparr>left = None, right = None, parent = None, data = None,
                     key = \<lparr>storage = [10, 0, 0, 0], bitCount = 8\<rparr>, bits = 8\<rparr>],
       root = Some 0, numNodes = 1\<rparr> :: nat trie)"
  (is "reachable 4 ?s")
proof (rule reach_subscript[OF reach_new])
  show "wf_key 4 \<lparr>storage = [10, 0, 0, 0], bitCount = 8\<rparr>" by (simp add: wf_key_def)
  show "subscript [7, 7, 7, 7] \<lparr>storage = [10, 0, 0, 0], bitCount = 8\<rparr> BinaryTrie = Inr (0, ?s)"
    by code_simp
qed simp

lemma reachable_two_keys:
  "reachable 4
     (\<lparr>heap = [Some \<lparr>left = Some 1, right = None, parent = None, data = None,
                     key = \<lparr>storage = [10, 0, 0, 0], bitCount = 8\<rparr>, bits = 8\<rparr>,
               Some \<lparr>left = None, right = None, parent = Some 0, data = None,
                     key = \<lparr>storage = [10, 1, 0, 0], bitCount = 16\<rparr>, bits = 16\<rparr>],
       root = Some 0, numNodes = 2\<rparr> :: nat trie)"
  (is "reachable 4 ?s")
proof (rule reach_subscript[OF reachable_one_key])
  show "wf_key 4 \<lparr>storage = [10, 1, 0, 0], bitCount = 16\<rparr>" by (simp add: wf_key_def)
  show "subscript [7, 7, 7, 7] \<lparr>storage = [10, 1, 0, 0], bitCount = 16\<rparr>
      (\<lparr>heap = [Some \<lparr>left = None, right = None, parent = None, data = None,
                      key = \<lparr>storage = [10, 0, 0, 0], bitCount = 8\<rparr>, bits = 8\<rparr>],
        root = Some 0, numNodes = 1\<rparr> :: nat trie) = Inr (1, ?s)"
    by code_simp
qed

text \<open>
  Claim C6.  In a trie that a program has built, \<open>erase\<close> of a key throws
  \<open>out_of_range\<close> if and only if no data node has that key, with the same length
  and the same bits; and the trie it leaves then is the trie it found, cell by
  cell, with the same root and the same \<open>size()\<close>.  When a data node has the key,
  \<open>erase\<close> goes on to \<open>removeNode\<close>.
\<close>

theorem erase_out_of_range_iff:
  assumes "reachable N s" and "wf_key N k"
  shows "((\<exists>s'. erase junk k s = Inr (OutOfRange s')) = (\<not> (\<exists>a. holds_key s a k))) \<and>
         (\<forall>s'. erase junk k s = Inr (OutOfRange s') \<longrightarrow> s' = s)"
proof -
  from reachable_inv[OF assms(1)] obtain P where inv: "trie_inv N P s" by auto
  from searchExact_spec[OF inv assms(2)] obtain res where
    res: "searchExact k s = Inr res" "\<forall>a. res = Some a \<longrightarrow> holds_key s a k"
      "\<forall>x. holds_key s x k \<longrightarrow> res = Some x" by blast
  show ?thesis
  proof (cases res)
    case None
    then have e: "erase junk k s = Inr (OutOfRange s)" using res(1) by (simp add: erase_def)
    have "\<not> (\<exists>a. holds_key s a k)" using res(3) None by simp
    then show ?thesis unfolding e by simp
  next
    case (Some a)
    then have h: "\<exists>a. holds_key s a k" using res(2) by blast
    have "\<And>s'. erase junk k s \<noteq> Inr (OutOfRange s')"
      using res(1) Some by (cases "removeNode junk a s") (simp_all add: erase_def)
    then show ?thesis using h by simp
  qed
qed

theorem erase_out_of_range_iff_witness:
  "erase [7, 7, 7, 7] \<lparr>storage = [10, 2, 0, 0], bitCount = 16\<rparr>
     (\<lparr>heap = [Some \<lparr>left = Some 1, right = None, parent = None, data = None,
                     key = \<lparr>storage = [10, 0, 0, 0], bitCount = 8\<rparr>, bits = 8\<rparr>,
               Some \<lparr>left = None, right = None, parent = Some 0, data = None,
                     key = \<lparr>storage = [10, 1, 0, 0], bitCount = 16\<rparr>, bits = 16\<rparr>],
       root = Some 0, numNodes = 2\<rparr> :: nat trie) =
   Inr (OutOfRange
     \<lparr>heap = [Some \<lparr>left = Some 1, right = None, parent = None, data = None,
                    key = \<lparr>storage = [10, 0, 0, 0], bitCount = 8\<rparr>, bits = 8\<rparr>,
              Some \<lparr>left = None, right = None, parent = Some 0, data = None,
                    key = \<lparr>storage = [10, 1, 0, 0], bitCount = 16\<rparr>, bits = 16\<rparr>],
      root = Some 0, numNodes = 2\<rparr>) \<and>
   \<not> (\<exists>a. holds_key
     (\<lparr>heap = [Some \<lparr>left = Some 1, right = None, parent = None, data = None,
                     key = \<lparr>storage = [10, 0, 0, 0], bitCount = 8\<rparr>, bits = 8\<rparr>,
               Some \<lparr>left = None, right = None, parent = Some 0, data = None,
                     key = \<lparr>storage = [10, 1, 0, 0], bitCount = 16\<rparr>, bits = 16\<rparr>],
       root = Some 0, numNodes = 2\<rparr> :: nat trie) a \<lparr>storage = [10, 2, 0, 0], bitCount = 16\<rparr>)"
  (is "erase ?J ?k ?s = _ \<and> _")
proof -
  have w: "wf_key 4 ?k" by (simp add: wf_key_def)
  have e: "erase ?J ?k ?s = Inr (OutOfRange ?s)" by code_simp
  from erase_out_of_range_iff[OF reachable_two_keys w, of ?J] e
  show ?thesis by simp
qed

text \<open>
  Claim C8.  In a trie that a program has built, \<open>operator[]\<close> returns and makes at
  most two new cells, and \<open>size()\<close> grows by at most 2; \<open>erase\<close> makes no new
  cell and no cell that was free is in use after it; \<open>at\<close> and \<open>best\<close> return no
  store at all.  The insertion of a list of keys into the empty trie ends with at
  most twice as many nodes as the list has keys.
\<close>

theorem allocation_bounds:
  fixes s :: "'v trie"
  assumes "reachable N s" and "wf_key N k" and "\<forall>kv \<in> set kvs. wf_key N (fst kv)"
  shows "(\<exists>a s'. subscript junk k s = Inr (a, s') \<and>
            length (heap s') \<le> length (heap s) + 2 \<and> trie_size s' \<le> trie_size s + 2) \<and>
         (\<forall>s'. erase junk k s = Inr (Returns s') \<longrightarrow>
            length (heap s') = length (heap s) \<and> live s' \<subseteq> live s) \<and>
         (\<forall>s'. at k s = Inr (OutOfRange s') \<or> best N k s = Inr (OutOfRange s') \<longrightarrow> s' = s) \<and>
         (\<exists>s'. insert_all junk kvs (BinaryTrie :: 'v trie) = Inr s' \<and>
            card (live s') \<le> 2 * length kvs \<and> trie_size s' \<le> 2 * length kvs)"
proof -
  from reachable_inv[OF assms(1)] obtain P where inv: "trie_inv N P s" by auto
  have N: "0 < N" using inv by (simp add: trie_inv_def)
  from lookupNode_inv[OF inv assms(2), of junk]
  have 1: "\<exists>a s'. subscript junk k s = Inr (a, s') \<and>
            length (heap s') \<le> length (heap s) + 2 \<and> trie_size s' \<le> trie_size s + 2"
    by (auto simp: subscript_def trie_size_def)
  have 2: "\<forall>s'. erase junk k s = Inr (Returns s') \<longrightarrow>
            length (heap s') = length (heap s) \<and> live s' \<subseteq> live s"
  proof (intro allI impI)
    fix s' assume "erase junk k s = Inr (Returns s')"
    from erase_inv[OF inv assms(2) this]
    show "length (heap s') = length (heap s) \<and> live s' \<subseteq> live s" by simp
  qed
  have "trie_inv N (\<lambda>_. []) (BinaryTrie :: 'v trie)" by (rule trie_inv_BinaryTrie[OF N])
  from insert_all_bound[OF this assms(3), of junk]
  obtain s' P' where s': "insert_all junk kvs (BinaryTrie :: 'v trie) = Inr s'" "trie_inv N P' s'"
    "numNodes s' \<le> numNodes (BinaryTrie :: 'v trie) + 2 * length kvs" by blast
  have "numNodes s' = card (live s')" using s'(2) by (simp add: trie_inv_def)
  then have 3: "\<exists>s'. insert_all junk kvs (BinaryTrie :: 'v trie) = Inr s' \<and>
            card (live s') \<le> 2 * length kvs \<and> trie_size s' \<le> 2 * length kvs"
    using s' by (auto simp: trie_size_def BinaryTrie_def)
  have 4: "\<forall>s'. at k s = Inr (OutOfRange s') \<or> best N k s = Inr (OutOfRange s') \<longrightarrow> s' = s"
    by (auto simp: at_def best_def and_then_eq_Inr split: option.splits)
  show ?thesis using 1 2 3 4 by blast
qed

theorem allocation_bounds_witness:
  "(\<exists>a s'. subscript [7, 7, 7, 7] \<lparr>storage = [10, 2, 0, 0], bitCount = 16\<rparr>
       (\<lparr>heap = [Some \<lparr>left = Some 1, right = None, parent = None, data = None,
                       key = \<lparr>storage = [10, 0, 0, 0], bitCount = 8\<rparr>, bits = 8\<rparr>,
                 Some \<lparr>left = None, right = None, parent = Some 0, data = None,
                       key = \<lparr>storage = [10, 1, 0, 0], bitCount = 16\<rparr>, bits = 16\<rparr>],
         root = Some 0, numNodes = 2\<rparr> :: nat trie) = Inr (a, s') \<and>
       length (heap s') \<le> 2 + 2 \<and> trie_size s' \<le> 2 + 2) \<and>
   (\<exists>s'. erase [7, 7, 7, 7] \<lparr>storage = [10, 1, 0, 0], bitCount = 16\<rparr>
       (\<lparr>heap = [Some \<lparr>left = Some 1, right = None, parent = None, data = None,
                       key = \<lparr>storage = [10, 0, 0, 0], bitCount = 8\<rparr>, bits = 8\<rparr>,
                 Some \<lparr>left = None, right = None, parent = Some 0, data = None,
                       key = \<lparr>storage = [10, 1, 0, 0], bitCount = 16\<rparr>, bits = 16\<rparr>],
         root = Some 0, numNodes = 2\<rparr> :: nat trie) = Inr (Returns s') \<and>
       length (heap s') = 2) \<and>
   (\<exists>s'. insert_all [7, 7, 7, 7]
       [(\<lparr>storage = [10, 0, 0, 0], bitCount = 8\<rparr>, 1),
        (\<lparr>storage = [10, 1, 0, 0], bitCount = 16\<rparr>, 2),
        (\<lparr>storage = [10, 2, 0, 0], bitCount = 16\<rparr>, 3)] (BinaryTrie :: nat trie) = Inr s' \<and>
       card (live s') \<le> 6 \<and> trie_size s' \<le> 6)"
  (is "?A \<and> ?B \<and> ?C")
proof -
  let ?J = "[7, 7, 7, 7] :: byte list"
  let ?k2 = "\<lparr>storage = [10, 1, 0, 0], bitCount = 16\<rparr>"
  let ?k3 = "\<lparr>storage = [10, 2, 0, 0], bitCount = 16\<rparr>"
  let ?kvs = "[(\<lparr>storage = [10, 0, 0, 0], bitCount = 8\<rparr>, 1), (?k2, 2), (?k3, 3)]
    :: (bitarray \<times> nat) list"
  let ?s = "\<lparr>heap = [Some \<lparr>left = Some 1, right = None, parent = None, data = None,
                       key = \<lparr>storage = [10, 0, 0, 0], bitCount = 8\<rparr>, bits = 8\<rparr>,
                 Some \<lparr>left = None, right = None, parent = Some 0, data = None,
                       key = ?k2, bits = 16\<rparr>],
         root = Some 0, numNodes = 2\<rparr> :: nat trie"
  have w: "wf_key 4 ?k3" "wf_key 4 ?k2" by (simp_all add: wf_key_def)
  have ws: "\<forall>kv \<in> set ?kvs. wf_key 4 (fst kv)" by (simp add: wf_key_def)
  have e: "erase ?J ?k2 ?s =
      Inr (Returns \<lparr>heap = [Some \<lparr>left = None, right = None, parent = None, data = None,
                       key = \<lparr>storage = [10, 0, 0, 0], bitCount = 8\<rparr>, bits = 8\<rparr>, None],
         root = Some 0, numNodes = 1\<rparr>)"
    by code_simp
  note b3 = allocation_bounds[OF reachable_two_keys w(1) ws, of ?J]
  note b2 = allocation_bounds[OF reachable_two_keys w(2) ws, of ?J]
  from b3[THEN conjunct1] have 1: "?A" by (simp add: trie_size_def eval_nat_numeral)
  from b2[THEN conjunct2, THEN conjunct1, rule_format, OF e] e have 2: "?B" by simp
  from b3[THEN conjunct2, THEN conjunct2, THEN conjunct2] have 3: "?C" by simp
  show ?thesis using 1 2 3 by (rule conjI[OF _ conjI])
qed

subsection \<open>searchBest\<close>

lemma key_bits_Some [simp]: "cell s a = Some n \<Longrightarrow> key_bits s a = bitCount (key n)"
  by (simp add: key_bits_def)

lemma stack_ok_Nil [simp]: "stack_ok s []"
  by (simp add: stack_ok_def)

lemma stack_ok_Cons:
  "stack_ok s (a # stack) =
     ((\<exists>n. cell s a = Some n \<and> \<not> key_empty (key n)) \<and>
      (\<forall>x \<in> set stack. key_bits s x < key_bits s a) \<and> stack_ok s stack)"
  by (auto simp: stack_ok_def)

lemma prefix_test:
  assumes inv: "trie_inv N P s" and q: "wf_key N q" and a: "cell s a = Some an"
    and data: "\<not> key_empty (key an)"
  shows "\<exists>c. compareBits q (key an) (key_size (key an)) = Inr c \<and>
           (c \<and> key_size (key an) \<le> key_size q) = prefix_node s a q"
proof -
  have wf: "wf_key N (key an)" by (rule inv_data(1)[OF inv a data])
  have "compareBits q (key an) (key_size (key an)) =
      Inr (key_size (key an) \<le> bitCount q \<and> key_size (key an) \<le> bitCount (key an) \<and>
           (\<forall>i < key_size (key an). kbit q i = kbit (key an) i))"
    by (rule compareBits_kbit[OF q wf])
  moreover have "prefix_node s a q = is_prefix (key an) q"
    using a data by (simp add: prefix_node_def)
  ultimately show ?thesis by (auto simp: is_prefix_def key_size_def)
qed

lemma searchBest_pop_spec:
  assumes inv: "trie_inv N P s" and q: "wf_key N q"
  shows "stack_ok s stack \<Longrightarrow>
     \<exists>res. searchBest_pop q s stack = Inr res \<and>
       (\<forall>a. res = Some a \<longrightarrow> a \<in> set stack \<and> prefix_node s a q \<and>
            (\<forall>x \<in> set stack. prefix_node s x q \<longrightarrow> x = a \<or> key_bits s x < key_bits s a)) \<and>
       (res = None \<longrightarrow> (\<forall>x \<in> set stack. \<not> prefix_node s x q))"
proof (induction stack)
  case Nil
  then show ?case by simp
next
  case (Cons a stack)
  from Cons.prems obtain an where an: "cell s a = Some an" "\<not> key_empty (key an)"
    and lt: "\<forall>x \<in> set stack. key_bits s x < key_bits s a" and ok: "stack_ok s stack"
    by (auto simp: stack_ok_Cons)
  from prefix_test[OF inv q an] obtain c where
    c: "compareBits q (key an) (key_size (key an)) = Inr c"
       "(c \<and> key_size (key an) \<le> key_size q) = prefix_node s a q" by blast
  show ?case
  proof (cases "prefix_node s a q")
    case True
    then have "searchBest_pop q s (a # stack) = Inr (Some a)" using an(1) c by simp
    then show ?thesis using True lt by auto
  next
    case False
    from Cons.IH[OF ok] obtain res where
      res: "searchBest_pop q s stack = Inr res"
        "\<forall>b. res = Some b \<longrightarrow> b \<in> set stack \<and> prefix_node s b q \<and>
            (\<forall>x \<in> set stack. prefix_node s x q \<longrightarrow> x = b \<or> key_bits s x < key_bits s b)"
        "res = None \<longrightarrow> (\<forall>x \<in> set stack. \<not> prefix_node s x q)" by blast
    have "searchBest_pop q s (a # stack) = Inr res" using an(1) c False res(1) by auto
    then show ?thesis using False res(2,3) by auto
  qed
qed

lemma step_from:
  assumes "(step k s)\<^sup>*\<^sup>* a x" and "x \<noteq> a"
  shows "\<exists>c. step k s a c \<and> (step k s)\<^sup>*\<^sup>* c x"
  using assms by (auto elim: converse_rtranclpE)

lemma searchBest_loop_spec:
  assumes inv: "trie_inv N P s" and q: "wf_key N q"
  shows "cell s a = Some na \<Longrightarrow> card (deeper s (bits na)) < fuel \<Longrightarrow> stack_ok s stack \<Longrightarrow>
     length stack \<le> bits na \<Longrightarrow> (\<forall>x \<in> set stack. key_bits s x < bits na) \<Longrightarrow>
     \<exists>stack' nd. searchBest_loop fuel N q s stack a = Inr (stack', nd) \<and>
       stack_ok s stack' \<and> set stack \<subseteq> set stack' \<and>
       (nd = None \<longrightarrow>
          (\<forall>x. (step q s)\<^sup>*\<^sup>* a x \<longrightarrow> prefix_node s x q \<longrightarrow> x \<in> set stack')) \<and>
       (\<forall>t. nd = Some t \<longrightarrow>
          (\<exists>tn. cell s t = Some tn \<and> key_size q \<le> bits tn \<and> length stack' \<le> bits tn \<and>
             (\<forall>x \<in> set stack'. key_bits s x < bits tn) \<and>
             (\<forall>x. (step q s)\<^sup>*\<^sup>* a x \<longrightarrow> prefix_node s x q \<longrightarrow>
                  x \<in> set stack' \<or> (step q s)\<^sup>*\<^sup>* t x)))"
proof (induction fuel arbitrary: a na stack)
  case 0
  then show ?case by simp
next
  case (Suc fuel)
  note a = Suc.prems(1)
  show ?case
  proof (cases "bits na < key_size q")
    case False
    then have "searchBest_loop (Suc fuel) N q s stack a = Inr (stack, Some a)"
      using a by simp
    then show ?thesis using a False Suc.prems(3,4,5) by auto
  next
    case True
    have le: "bits na \<le> N * 8" by (rule inv_bits_le[OF inv a])
    have "bits na < N * 8" using True q by (auto simp: key_size_def wf_key_def)
    then have bit: "bit_at q (bits na) = Inr (kbit q (bits na))" by (rule bit_at_wf[OF q])
    define stack1 where "stack1 = (if \<not> key_empty (key na) then a # stack else stack)"
    have push: "(if \<not> key_empty (key na) then push N a stack else Inr stack) = Inr stack1"
      using Suc.prems(4) le by (simp add: push_def stack1_def)
    have kb: "\<not> key_empty (key na) \<Longrightarrow> key_bits s a = bits na"
      using inv_data(2)[OF inv a] a by simp
    have ok1: "stack_ok s stack1"
      using Suc.prems(3,5) a kb by (auto simp: stack1_def stack_ok_Cons)
    have sub: "set stack \<subseteq> set stack1" by (auto simp: stack1_def)
    have self: "prefix_node s a q \<Longrightarrow> a \<in> set stack1"
      using a by (auto simp: prefix_node_def stack1_def)
    show ?thesis
    proof (cases "next_node q na")
      case None
      then have ev: "searchBest_loop (Suc fuel) N q s stack a = Inr (stack1, None)"
        using a True push bit by (auto simp: next_node_def)
      have "x = a" if "(step q s)\<^sup>*\<^sup>* a x" for x
      proof (rule ccontr)
        assume "x \<noteq> a"
        from step_from[OF that this] show False using a None by (auto simp: step_def)
      qed
      then have "\<forall>x. (step q s)\<^sup>*\<^sup>* a x \<longrightarrow> prefix_node s x q \<longrightarrow> x \<in> set stack1"
        using self by auto
      then show ?thesis using ev ok1 sub by auto
    next
      case (Some c)
      then have st: "step q s a c" using a by (auto simp: step_def)
      from inv_step[OF inv st] a obtain cn where
        c: "cell s c = Some cn" "bits na < bits cn" by auto
      have fuel: "card (deeper s (bits cn)) < fuel"
        using deeper_less[OF c] Suc.prems(2) by simp
      have len1: "length stack1 \<le> bits cn" using Suc.prems(4) c(2) by (simp add: stack1_def)
      have lt1: "\<forall>x \<in> set stack1. key_bits s x < bits cn"
        using Suc.prems(5) c(2) kb by (auto simp: stack1_def)
      from Suc.IH[OF c(1) fuel ok1 len1 lt1] obtain stack' nd where
        r: "searchBest_loop fuel N q s stack1 c = Inr (stack', nd)"
          "stack_ok s stack'" "set stack1 \<subseteq> set stack'"
          "nd = None \<longrightarrow>
             (\<forall>x. (step q s)\<^sup>*\<^sup>* c x \<longrightarrow> prefix_node s x q \<longrightarrow> x \<in> set stack')"
          "\<forall>t. nd = Some t \<longrightarrow>
            (\<exists>tn. cell s t = Some tn \<and> key_size q \<le> bits tn \<and> length stack' \<le> bits tn \<and>
               (\<forall>x \<in> set stack'. key_bits s x < bits tn) \<and>
               (\<forall>x. (step q s)\<^sup>*\<^sup>* c x \<longrightarrow> prefix_node s x q \<longrightarrow>
                    x \<in> set stack' \<or> (step q s)\<^sup>*\<^sup>* t x))" by blast
      have ev: "searchBest_loop (Suc fuel) N q s stack a = Inr (stack', nd)"
        using a True push bit Some r(1) by (auto simp: next_node_def)
      have below: "x = a \<or> (step q s)\<^sup>*\<^sup>* c x" if "(step q s)\<^sup>*\<^sup>* a x" for x
      proof (cases "x = a")
        case False
        from step_from[OF that False] obtain c' where
          c': "step q s a c'" "(step q s)\<^sup>*\<^sup>* c' x" by auto
        then have "c' = c" using st by (auto simp: step_def)
        then show ?thesis using c'(2) by simp
      qed simp
      have 1: "nd = None \<longrightarrow>
          (\<forall>x. (step q s)\<^sup>*\<^sup>* a x \<longrightarrow> prefix_node s x q \<longrightarrow> x \<in> set stack')"
        using r(3,4) below self by blast
      have 2: "\<forall>t. nd = Some t \<longrightarrow>
          (\<exists>tn. cell s t = Some tn \<and> key_size q \<le> bits tn \<and> length stack' \<le> bits tn \<and>
             (\<forall>x \<in> set stack'. key_bits s x < bits tn) \<and>
             (\<forall>x. (step q s)\<^sup>*\<^sup>* a x \<longrightarrow> prefix_node s x q \<longrightarrow>
                  x \<in> set stack' \<or> (step q s)\<^sup>*\<^sup>* t x))"
      proof (intro allI impI)
        fix t assume "nd = Some t"
        with r(5) obtain tn where
          t: "cell s t = Some tn" "key_size q \<le> bits tn" "length stack' \<le> bits tn"
            "\<forall>x \<in> set stack'. key_bits s x < bits tn"
            "\<forall>x. (step q s)\<^sup>*\<^sup>* c x \<longrightarrow> prefix_node s x q \<longrightarrow>
                    x \<in> set stack' \<or> (step q s)\<^sup>*\<^sup>* t x" by blast
        have "\<forall>x. (step q s)\<^sup>*\<^sup>* a x \<longrightarrow> prefix_node s x q \<longrightarrow>
                  x \<in> set stack' \<or> (step q s)\<^sup>*\<^sup>* t x"
          using t(5) below self r(3) by blast
        then show "\<exists>tn. cell s t = Some tn \<and> key_size q \<le> bits tn \<and> length stack' \<le> bits tn \<and>
             (\<forall>x \<in> set stack'. key_bits s x < bits tn) \<and>
             (\<forall>x. (step q s)\<^sup>*\<^sup>* a x \<longrightarrow> prefix_node s x q \<longrightarrow>
                  x \<in> set stack' \<or> (step q s)\<^sup>*\<^sup>* t x)"
          using t(1,2,3,4) by blast
      qed
      have "set stack \<subseteq> set stack'" using sub r(3) by auto
      then show ?thesis using ev r(2) 1 2 by blast
    qed
  qed
qed

lemma prefix_node_on_path:
  assumes inv: "trie_inv N P s" and r: "root s = Some r" and m: "prefix_node s x q"
  shows "(step q s)\<^sup>*\<^sup>* r x"
proof -
  from m obtain xn where xn: "cell s x = Some xn" "\<not> key_empty (key xn)" "is_prefix (key xn) q"
    by (auto simp: prefix_node_def)
  note dx = inv_data[OF inv xn(1,2)]
  have "pfx (key xn) (bits xn) = pfx q (bits xn)"
    using xn(3) dx(2) by (simp add: is_prefix_def pfx_eq_iff)
  then have "P x = pfx q (bits xn)" using dx(3) by simp
  from root_path_follows_key[OF inv xn(1) this] r show ?thesis by auto
qed

lemma searchBest_spec:
  assumes inv: "trie_inv N P s" and q: "wf_key N q"
  shows "\<exists>res. searchBest N q s = Inr res \<and>
       (\<forall>a. res = Some a \<longrightarrow> prefix_node s a q \<and>
            (\<forall>x. prefix_node s x q \<longrightarrow> x = a \<or> key_bits s x < key_bits s a)) \<and>
       (res = None \<longrightarrow> (\<forall>x. \<not> prefix_node s x q))"
proof (cases "root s")
  case None
  then have "\<And>x. cell s x = None" using inv by (auto simp: trie_inv_def live_def)
  then show ?thesis using None by (simp add: searchBest_def prefix_node_def)
next
  case (Some r)
  from inv_root[OF inv Some] obtain rn where rn: "cell s r = Some rn" by auto
  have start: "(step q s)\<^sup>*\<^sup>* r x" if "prefix_node s x q" for x
    by (rule prefix_node_on_path[OF inv Some that])
  from searchBest_loop_spec[OF inv q rn deeper_fuel, of "[]"] obtain stack nd where
    l: "searchBest_loop (length (heap s) + 1) N q s [] r = Inr (stack, nd)"
      "stack_ok s stack"
      "nd = None \<longrightarrow>
          (\<forall>x. (step q s)\<^sup>*\<^sup>* r x \<longrightarrow> prefix_node s x q \<longrightarrow> x \<in> set stack)"
      "\<forall>t. nd = Some t \<longrightarrow>
          (\<exists>tn. cell s t = Some tn \<and> key_size q \<le> bits tn \<and> length stack \<le> bits tn \<and>
             (\<forall>x \<in> set stack. key_bits s x < bits tn) \<and>
             (\<forall>x. (step q s)\<^sup>*\<^sup>* r x \<longrightarrow> prefix_node s x q \<longrightarrow>
                  x \<in> set stack \<or> (step q s)\<^sup>*\<^sup>* t x))"
    by auto
  \<comment> \<open>the stack behind "store also current data node"\<close>
  have "\<exists>stack1. (case nd of None \<Rightarrow> Inr stack
             | Some a \<Rightarrow> and_then (get s a) (\<lambda>n.
                 if \<not> key_empty (key n) then push N a stack else Inr stack)) = Inr stack1 \<and>
          stack_ok s stack1 \<and> (\<forall>x. prefix_node s x q \<longrightarrow> x \<in> set stack1)"
  proof (cases nd)
    case None
    then show ?thesis using l(2,3) start by auto
  next
    case (Some t)
    with l(4) obtain tn where
      t: "cell s t = Some tn" "key_size q \<le> bits tn" "length stack \<le> bits tn"
        "\<forall>x \<in> set stack. key_bits s x < bits tn"
        "\<forall>x. (step q s)\<^sup>*\<^sup>* r x \<longrightarrow> prefix_node s x q \<longrightarrow>
                  x \<in> set stack \<or> (step q s)\<^sup>*\<^sup>* t x" by blast
    have le: "bits tn \<le> N * 8" by (rule inv_bits_le[OF inv t(1)])
    define stack1 where "stack1 = (if \<not> key_empty (key tn) then t # stack else stack)"
    have push: "(if \<not> key_empty (key tn) then push N t stack else Inr stack) = Inr stack1"
      using t(3) le by (simp add: push_def stack1_def)
    have kb: "\<not> key_empty (key tn) \<Longrightarrow> key_bits s t = bits tn"
      using inv_data(2)[OF inv t(1)] t(1) by simp
    have ok1: "stack_ok s stack1"
      using l(2) t(1,4) kb by (auto simp: stack1_def stack_ok_Cons)
    have last: "x = t" if "(step q s)\<^sup>*\<^sup>* t x" "prefix_node s x q" for x
    proof (rule ccontr)
      assume ne: "x \<noteq> t"
      from desc_props[OF inv that(1) t(1)] ne obtain xn where
        xn: "cell s x = Some xn" "bits tn < bits xn" by auto
      from that(2) xn(1) have "\<not> key_empty (key xn)" "bitCount (key xn) \<le> bitCount q"
        by (auto simp: prefix_node_def is_prefix_def)
      then have "bits xn \<le> key_size q"
        using inv_data(2)[OF inv xn(1)] by (simp add: key_size_def)
      then show False using xn(2) t(2) by simp
    qed
    have "x \<in> set stack1" if m: "prefix_node s x q" for x
    proof -
      from t(5) start[OF m] m have "x \<in> set stack \<or> (step q s)\<^sup>*\<^sup>* t x" by blast
      then show ?thesis
      proof
        assume "x \<in> set stack" then show ?thesis by (simp add: stack1_def)
      next
        assume "(step q s)\<^sup>*\<^sup>* t x"
        from last[OF this m] m t(1) show ?thesis by (auto simp: prefix_node_def stack1_def)
      qed
    qed
    then show ?thesis using Some t(1) push ok1 by auto
  qed
  then obtain stack1 where
    s1: "(case nd of None \<Rightarrow> Inr stack
             | Some a \<Rightarrow> and_then (get s a) (\<lambda>n.
                 if \<not> key_empty (key n) then push N a stack else Inr stack)) = Inr stack1"
      "stack_ok s stack1" "\<forall>x. prefix_node s x q \<longrightarrow> x \<in> set stack1" by blast
  from searchBest_pop_spec[OF inv q s1(2)] obtain res where
    res: "searchBest_pop q s stack1 = Inr res"
      "\<forall>a. res = Some a \<longrightarrow> a \<in> set stack1 \<and> prefix_node s a q \<and>
            (\<forall>x \<in> set stack1. prefix_node s x q \<longrightarrow> x = a \<or> key_bits s x < key_bits s a)"
      "res = None \<longrightarrow> (\<forall>x \<in> set stack1. \<not> prefix_node s x q)" by blast
  have "searchBest N q s = Inr res"
    using Some l(1) s1(1) res(1) by (simp add: searchBest_def)
  then show ?thesis using res(2,3) s1(3) by blast
qed

text \<open>
  What \<open>best\<close> returns, in terms of the data nodes.  In a trie that a program has
  built, \<open>best\<close> of a key \<open>q\<close> returns the data node whose key is a prefix of \<open>q\<close>
  and longer than the key of every other data node whose key is a prefix of \<open>q\<close>;
  it throws \<open>out_of_range\<close>, and leaves the trie as it is, when no data node has
  a prefix of \<open>q\<close> as its key; and it does one of the two.  A data node is a node
  whose key is not empty.  The node that \<open>operator[]\<close> makes for a key of 0 bits
  is none, and \<open>best\<close> never returns it (last section).
\<close>

theorem best_longest_prefix:
  assumes "reachable N s" and "wf_key N q"
  shows "(\<exists>a. best N q s = Inr (Returns a) \<and> prefix_node s a q \<and>
              (\<forall>x. prefix_node s x q \<longrightarrow> x = a \<or> key_bits s x < key_bits s a)) \<or>
         (best N q s = Inr (OutOfRange s) \<and> (\<forall>x. \<not> prefix_node s x q))"
proof -
  from reachable_inv[OF assms(1)] obtain P where inv: "trie_inv N P s" by auto
  from searchBest_spec[OF inv assms(2)] obtain res where
    res: "searchBest N q s = Inr res"
      "\<forall>a. res = Some a \<longrightarrow> prefix_node s a q \<and>
            (\<forall>x. prefix_node s x q \<longrightarrow> x = a \<or> key_bits s x < key_bits s a)"
      "res = None \<longrightarrow> (\<forall>x. \<not> prefix_node s x q)" by blast
  show ?thesis
  proof (cases res)
    case None
    then have "best N q s = Inr (OutOfRange s)" using res(1) by (simp add: best_def)
    then show ?thesis using res(3) None by simp
  next
    case (Some a)
    then have "best N q s = Inr (Returns a)" using res(1) by (simp add: best_def)
    then show ?thesis using res(2) Some by simp
  qed
qed

text \<open>An example: the keys \<open>10.0.0.0/8\<close>, \<open>10.1.0.0/16\<close> and \<open>10.2.0.0/16\<close> and the
  query \<open>10.1.2.3\<close>.\<close>

lemma reachable_three_keys:
  "reachable 4 (\<lparr>heap =
      [Some \<lparr>left = Some 3, right = None, parent = None, data = None,
             key = \<lparr>storage = [10, 0, 0, 0], bitCount = 8\<rparr>, bits = 8\<rparr>,
       Some \<lparr>left = None, right = None, parent = Some 3, data = None,
             key = \<lparr>storage = [10, 1, 0, 0], bitCount = 16\<rparr>, bits = 16\<rparr>,
       Some \<lparr>left = None, right = None, parent = Some 3, data = None,
             key = \<lparr>storage = [10, 2, 0, 0], bitCount = 16\<rparr>, bits = 16\<rparr>,
       Some \<lparr>left = Some 1, right = Some 2, parent = Some 0, data = None,
             key = \<lparr>storage = [7, 7, 7, 7], bitCount = 0\<rparr>, bits = 14\<rparr>],
     root = Some 0, numNodes = 4\<rparr> :: nat trie)"
proof (rule reach_subscript[OF reachable_two_keys,
      of "\<lparr>storage = [10, 2, 0, 0], bitCount = 16\<rparr>" "[7, 7, 7, 7]" 2])
  show "wf_key 4 \<lparr>storage = [10, 2, 0, 0], bitCount = 16\<rparr>" by (simp add: wf_key_def)
  show "subscript [7, 7, 7, 7] \<lparr>storage = [10, 2, 0, 0], bitCount = 16\<rparr>
      (\<lparr>heap = [Some \<lparr>left = Some 1, right = None, parent = None, data = None,
                     key = \<lparr>storage = [10, 0, 0, 0], bitCount = 8\<rparr>, bits = 8\<rparr>,
               Some \<lparr>left = None, right = None, parent = Some 0, data = None,
                     key = \<lparr>storage = [10, 1, 0, 0], bitCount = 16\<rparr>, bits = 16\<rparr>],
       root = Some 0, numNodes = 2\<rparr> :: nat trie) =
    Inr (2, \<lparr>heap =
      [Some \<lparr>left = Some 3, right = None, parent = None, data = None,
             key = \<lparr>storage = [10, 0, 0, 0], bitCount = 8\<rparr>, bits = 8\<rparr>,
       Some \<lparr>left = None, right = None, parent = Some 3, data = None,
             key = \<lparr>storage = [10, 1, 0, 0], bitCount = 16\<rparr>, bits = 16\<rparr>,
       Some \<lparr>left = None, right = None, parent = Some 3, data = None,
             key = \<lparr>storage = [10, 2, 0, 0], bitCount = 16\<rparr>, bits = 16\<rparr>,
       Some \<lparr>left = Some 1, right = Some 2, parent = Some 0, data = None,
             key = \<lparr>storage = [7, 7, 7, 7], bitCount = 0\<rparr>, bits = 14\<rparr>],
     root = Some 0, numNodes = 4\<rparr>)"
    by code_simp
qed

lemma best_longest_prefix_example:
  "best 4 \<lparr>storage = [10, 1, 2, 3], bitCount = 32\<rparr> (\<lparr>heap =
      [Some \<lparr>left = Some 3, right = None, parent = None, data = None,
             key = \<lparr>storage = [10, 0, 0, 0], bitCount = 8\<rparr>, bits = 8\<rparr>,
       Some \<lparr>left = None, right = None, parent = Some 3, data = None,
             key = \<lparr>storage = [10, 1, 0, 0], bitCount = 16\<rparr>, bits = 16\<rparr>,
       Some \<lparr>left = None, right = None, parent = Some 3, data = None,
             key = \<lparr>storage = [10, 2, 0, 0], bitCount = 16\<rparr>, bits = 16\<rparr>,
       Some \<lparr>left = Some 1, right = Some 2, parent = Some 0, data = None,
             key = \<lparr>storage = [7, 7, 7, 7], bitCount = 0\<rparr>, bits = 14\<rparr>],
     root = Some 0, numNodes = 4\<rparr> :: nat trie) = Inr (Returns 1) \<and>
   prefix_node (\<lparr>heap =
      [Some \<lparr>left = Some 3, right = None, parent = None, data = None,
             key = \<lparr>storage = [10, 0, 0, 0], bitCount = 8\<rparr>, bits = 8\<rparr>,
       Some \<lparr>left = None, right = None, parent = Some 3, data = None,
             key = \<lparr>storage = [10, 1, 0, 0], bitCount = 16\<rparr>, bits = 16\<rparr>,
       Some \<lparr>left = None, right = None, parent = Some 3, data = None,
             key = \<lparr>storage = [10, 2, 0, 0], bitCount = 16\<rparr>, bits = 16\<rparr>,
       Some \<lparr>left = Some 1, right = Some 2, parent = Some 0, data = None,
             key = \<lparr>storage = [7, 7, 7, 7], bitCount = 0\<rparr>, bits = 14\<rparr>],
     root = Some 0, numNodes = 4\<rparr> :: nat trie) 1 \<lparr>storage = [10, 1, 2, 3], bitCount = 32\<rparr> \<and>
   \<not> prefix_node (\<lparr>heap =
      [Some \<lparr>left = Some 3, right = None, parent = None, data = None,
             key = \<lparr>storage = [10, 0, 0, 0], bitCount = 8\<rparr>, bits = 8\<rparr>,
       Some \<lparr>left = None, right = None, parent = Some 3, data = None,
             key = \<lparr>storage = [10, 1, 0, 0], bitCount = 16\<rparr>, bits = 16\<rparr>,
       Some \<lparr>left = None, right = None, parent = Some 3, data = None,
             key = \<lparr>storage = [10, 2, 0, 0], bitCount = 16\<rparr>, bits = 16\<rparr>,
       Some \<lparr>left = Some 1, right = Some 2, parent = Some 0, data = None,
             key = \<lparr>storage = [7, 7, 7, 7], bitCount = 0\<rparr>, bits = 14\<rparr>],
     root = Some 0, numNodes = 4\<rparr> :: nat trie) 2 \<lparr>storage = [10, 1, 2, 3], bitCount = 32\<rparr>"
  (is "best 4 ?q ?s = _ \<and> _ \<and> _")
proof -
  have w: "wf_key 4 ?q" by (simp add: wf_key_def)
  have e: "best 4 ?q ?s = Inr (Returns 1)" by code_simp
  have k: "key_bits ?s 2 = 16" "key_bits ?s 1 = 16"
    by (simp_all add: key_bits_def cell_def)
  from best_longest_prefix[OF reachable_three_keys w] e
  have "prefix_node ?s 1 ?q \<and>
        (\<forall>x. prefix_node ?s x ?q \<longrightarrow> x = 1 \<or> key_bits ?s x < key_bits ?s 1)"
    by simp
  then have "prefix_node ?s 1 ?q" "\<not> prefix_node ?s 2 ?q"
    using k by auto
  then show ?thesis using e by simp
qed

subsection \<open>What operator[] stores\<close>

text \<open>A key of at least one bit is the key of the data node that \<open>operator[]\<close>
  returns for it, the data nodes there were keep their keys, and \<open>at\<close> finds the
  node returned.  For a key of 0 bits see the last section.\<close>

lemma subscript_holds_key:
  assumes inv: "trie_inv N P s" and k: "wf_key N k" and ne: "\<not> key_empty k"
    and r: "subscript junk k s = Inr (b, s')"
  shows "holds_key s' b k" and "\<And>x k'. holds_key s x k' \<Longrightarrow> holds_key s' x k'"
proof -
  from lookupNode_inv[OF inv k, of junk] r obtain P' where
    inv': "trie_inv N P' s'" and post: "ins_post P P' k s b s'"
    by (auto simp: subscript_def)
  from post ne obtain bn where bn: "cell s' b = Some bn" "bits bn = bitCount k"
    "P' b = pfx k (bitCount k)" "\<not> key_empty (key bn)" by (auto simp: ins_post_def)
  note db = inv_data[OF inv' bn(1,4)]
  have "same_key (key bn) k" using db(2,3) bn(2,3) by (simp add: same_key_pfx)
  then show "holds_key s' b k" using bn(1,4) by (auto simp: holds_key_def)
  fix x k' assume "holds_key s x k'"
  then obtain n where n: "cell s x = Some n" "\<not> key_empty (key n)" "same_key (key n) k'"
    by (auto simp: holds_key_def)
  from post have "\<forall>x n. cell s x = Some n \<longrightarrow>
      (\<exists>n'. cell s' x = Some n' \<and> (\<not> key_empty (key n) \<longrightarrow> key n' = key n))"
    unfolding ins_post_def by blast
  with n(1,2) obtain n' where "cell s' x = Some n'" "key n' = key n" by blast
  then show "holds_key s' x k'" using n(2,3) by (auto simp: holds_key_def)
qed

lemma at_after_subscript:
  assumes "reachable N s" and k: "wf_key N k" and ne: "\<not> key_empty k"
    and r: "subscript junk k s = Inr (b, s')"
  shows "at k s' = Inr (Returns b)"
proof -
  from reachable_inv[OF assms(1)] obtain P where inv: "trie_inv N P s" by auto
  have h: "holds_key s' b k" by (rule subscript_holds_key(1)[OF inv k ne r])
  from reachable_inv[OF reach_subscript[OF assms(1) k r]] obtain P' where
    inv': "trie_inv N P' s'" by auto
  from searchExact_spec[OF inv' k] h have "searchExact k s' = Inr (Some b)" by auto
  then show ?thesis by (simp add: at_def)
qed

text \<open>A node with an empty key has two children, if it is not the root at depth 0.\<close>

lemma empty_key_children:
  assumes "reachable N s" and a: "cell s a = Some n" and e: "key_empty (key n)"
  shows "(left n \<noteq> None \<and> right n \<noteq> None) \<or> (root s = Some a \<and> bits n = 0)"
proof -
  from reachable_inv[OF assms(1)] obtain P where inv: "trie_inv N P s" by auto
  from inv_glue[OF inv a e] inv_parent[OF inv a] show ?thesis
    by (auto simp: parent_ok_def)
qed

section \<open>The defects the trie shows on small inputs\<close>

text \<open>The trie after the first insertion.\<close>

lemma lookupNode_BinaryTrie:
  "lookupNode junk k BinaryTrie =
     Inr (0, \<lparr>heap = [Some (Node_key k (bitCount k))], root = Some 0, numNodes = 1\<rparr>)"
  by (simp add: lookupNode_def BinaryTrie_def new_node_def alloc_def key_size_def)

text \<open>
  Claim C7.  The claim: erasing a leaf frees the node once, also when it is the only
  node of the trie.  On that path \<open>removeNode\<close> runs \<open>delete node\<close>, sets \<open>root\<close> to
  null and runs \<open>delete node\<close> again: with the only key \<open>10.0.0.0/8\<close> in the trie,
  \<open>erase\<close> of that key finds the node and ends in the second \<open>delete\<close>.
\<close>

theorem erase_only_node_deletes_twice:
  "lookupNode [7, 7, 7, 7] \<lparr>storage = [10, 0, 0, 0], bitCount = 8\<rparr> (BinaryTrie :: nat trie) =
     Inr (0, (\<lparr>heap = [Some (Node_key \<lparr>storage = [10, 0, 0, 0], bitCount = 8\<rparr> 8)],
       root = Some 0, numNodes = 1\<rparr> :: nat trie)) \<and>
   searchExact \<lparr>storage = [10, 0, 0, 0], bitCount = 8\<rparr>
     (\<lparr>heap = [Some (Node_key \<lparr>storage = [10, 0, 0, 0], bitCount = 8\<rparr> 8)],
       root = Some 0, numNodes = 1\<rparr> :: nat trie) = Inr (Some 0) \<and>
   delete_node 0
     (\<lparr>heap = [Some (Node_key \<lparr>storage = [10, 0, 0, 0], bitCount = 8\<rparr> 8)],
       root = Some 0, numNodes = 1\<rparr> :: nat trie) = Inr \<lparr>heap = [None], root = Some 0, numNodes = 1\<rparr> \<and>
   delete_node 0 (\<lparr>heap = [None], root = None, numNodes = 0\<rparr> :: nat trie) = Inl DoubleFree \<and>
   erase [7, 7, 7, 7] \<lparr>storage = [10, 0, 0, 0], bitCount = 8\<rparr>
     (\<lparr>heap = [Some (Node_key \<lparr>storage = [10, 0, 0, 0], bitCount = 8\<rparr> 8)],
       root = Some 0, numNodes = 1\<rparr> :: nat trie) = Inl DoubleFree"
  by code_simp

text \<open>
  Claim C10.  The claim: after \<open>clear\<close> the trie is empty again, \<open>empty()\<close> is true,
  \<open>size()\<close> is 0 and a second \<open>clear\<close> frees nothing.  \<open>clear\<close> deletes the nodes and
  sets \<open>numNodes\<close> to 0, but it leaves \<open>root\<close> as it is: with one key in the trie,
  \<open>empty()\<close> is false after \<open>clear\<close>, and a second \<open>clear\<close> (the destructor runs one) reads
  the deleted node.
\<close>

theorem clear_leaves_root_dangling:
  "clear 4 (\<lparr>heap = [Some (Node_key \<lparr>storage = [10, 0, 0, 0], bitCount = 8\<rparr> 8)],
       root = Some 0, numNodes = 1\<rparr> :: nat trie) = Inr \<lparr>heap = [None], root = Some 0, numNodes = 0\<rparr> \<and>
   trie_empty (\<lparr>heap = [None], root = Some 0, numNodes = 0\<rparr> :: nat trie) = False \<and>
   trie_size (\<lparr>heap = [None], root = Some 0, numNodes = 0\<rparr> :: nat trie) = 0 \<and>
   clear 4 (\<lparr>heap = [None], root = Some 0, numNodes = 0\<rparr> :: nat trie) = Inl UseAfterFree"
  by code_simp

text \<open>
  Claim C1.  The claim: in every trie built with \<open>operator[]\<close>, \<open>best\<close> returns the
  node of the longest stored key that is a prefix of the query, and throws only
  when no stored key is one.  The key of 0 bits (\<open>0.0.0.0/0\<close>) is a prefix of every
  query, and the test of \<open>searchBest\<close> on a node of its stack,
  \<open>compareBits\<close> and the comparison of the sizes, accepts it; but \<open>searchBest\<close>
  takes the node that \<open>operator[]\<close> made for it for a glue node and never puts it
  on the stack: \<open>best\<close> throws.  With a second key in the trie \<open>best\<close> throws
  for a query that only the key of 0 bits covers.  On the nodes whose key is not
  empty \<open>best\<close> does what the claim says, \<open>best_longest_prefix\<close>.
\<close>

theorem best_misses_the_empty_key:
  "subscript [7, 7, 7, 7] \<lparr>storage = [0, 0, 0, 0], bitCount = 0\<rparr> (BinaryTrie :: nat trie) =
     Inr (0, \<lparr>heap = [Some \<lparr>left = None, right = None, parent = None, data = None,
                             key = \<lparr>storage = [0, 0, 0, 0], bitCount = 0\<rparr>, bits = 0\<rparr>],
              root = Some 0, numNodes = 1\<rparr>) \<and>
   assign 0 100
     (\<lparr>heap = [Some \<lparr>left = None, right = None, parent = None, data = None,
                     key = \<lparr>storage = [0, 0, 0, 0], bitCount = 0\<rparr>, bits = 0\<rparr>],
       root = Some 0, numNodes = 1\<rparr> :: nat trie) =
     Inr \<lparr>heap = [Some \<lparr>left = None, right = None, parent = None, data = Some 100,
                        key = \<lparr>storage = [0, 0, 0, 0], bitCount = 0\<rparr>, bits = 0\<rparr>],
          root = Some 0, numNodes = 1\<rparr> \<and>
   compareBits \<lparr>storage = [10, 1, 2, 3], bitCount = 32\<rparr>
     \<lparr>storage = [0, 0, 0, 0], bitCount = 0\<rparr>
     (key_size \<lparr>storage = [0, 0, 0, 0], bitCount = 0\<rparr>) = Inr True \<and>
   key_size \<lparr>storage = [0, 0, 0, 0], bitCount = 0\<rparr> \<le>
     key_size \<lparr>storage = [10, 1, 2, 3], bitCount = 32\<rparr> \<and>
   best 4 \<lparr>storage = [10, 1, 2, 3], bitCount = 32\<rparr>
     (\<lparr>heap = [Some \<lparr>left = None, right = None, parent = None, data = Some 100,
                     key = \<lparr>storage = [0, 0, 0, 0], bitCount = 0\<rparr>, bits = 0\<rparr>],
       root = Some 0, numNodes = 1\<rparr> :: nat trie) =
     Inr (OutOfRange
       \<lparr>heap = [Some \<lparr>left = None, right = None, parent = None, data = Some 100,
                      key = \<lparr>storage = [0, 0, 0, 0], bitCount = 0\<rparr>, bits = 0\<rparr>],
        root = Some 0, numNodes = 1\<rparr>) \<and>
   best 4 \<lparr>storage = [192, 168, 0, 1], bitCount = 32\<rparr>
     (\<lparr>heap = [Some \<lparr>left = Some 1, right = None, parent = None, data = Some 100,
                     key = \<lparr>storage = [0, 0, 0, 0], bitCount = 0\<rparr>, bits = 0\<rparr>,
               Some \<lparr>left = None, right = None, parent = Some 0, data = Some 200,
                     key = \<lparr>storage = [10, 0, 0, 0], bitCount = 8\<rparr>, bits = 8\<rparr>],
       root = Some 0, numNodes = 2\<rparr> :: nat trie) =
     Inr (OutOfRange
       \<lparr>heap = [Some \<lparr>left = Some 1, right = None, parent = None, data = Some 100,
                      key = \<lparr>storage = [0, 0, 0, 0], bitCount = 0\<rparr>, bits = 0\<rparr>,
                Some \<lparr>left = None, right = None, parent = Some 0, data = Some 200,
                      key = \<lparr>storage = [10, 0, 0, 0], bitCount = 8\<rparr>, bits = 8\<rparr>],
        root = Some 0, numNodes = 2\<rparr>)"
  by code_simp

text \<open>
  Claim C2.  The claim: for every key of at most \<open>N * 8\<close> bits, \<open>at\<close> finds the node
  that \<open>operator[]\<close> has just returned.  A key of 0 bits (the prefix \<open>0.0.0.0/0\<close>) is
  such a key; \<open>operator[]\<close> returns a node for it, whose key is empty, and
  \<open>searchExact\<close> takes a node with an empty key for a glue node: \<open>at\<close> throws.
  For a key of at least one bit \<open>at\<close> finds the node, \<open>at_after_subscript\<close>.
\<close>

theorem at_misses_the_empty_key:
  "subscript [7, 7, 7, 7] \<lparr>storage = [0, 0, 0, 0], bitCount = 0\<rparr> (BinaryTrie :: nat trie) =
     Inr (0, (\<lparr>heap = [Some (Node_key \<lparr>storage = [0, 0, 0, 0], bitCount = 0\<rparr> 0)],
       root = Some 0, numNodes = 1\<rparr> :: nat trie)) \<and>
   at \<lparr>storage = [0, 0, 0, 0], bitCount = 0\<rparr>
     (\<lparr>heap = [Some (Node_key \<lparr>storage = [0, 0, 0, 0], bitCount = 0\<rparr> 0)],
       root = Some 0, numNodes = 1\<rparr> :: nat trie) =
     Inr (OutOfRange (\<lparr>heap = [Some (Node_key \<lparr>storage = [0, 0, 0, 0], bitCount = 0\<rparr> 0)],
       root = Some 0, numNodes = 1\<rparr> :: nat trie))"
  by code_simp

text \<open>
  Claim C3.  The claim: in every trie that insertions and erasures build, a node
  with an empty key has two children.  The insertion of a key of 0 bits into the
  empty trie makes a node with an empty key and no child.  With a second key below
  it that node has one child, and the erasure of the second key follows the null
  pointer to the missing sibling.  Every other node with an empty key has two
  children, \<open>empty_key_children\<close>.
\<close>

theorem empty_key_node_without_children:
  "lookupNode [7, 7, 7, 7] \<lparr>storage = [0, 0, 0, 0], bitCount = 0\<rparr> (BinaryTrie :: nat trie) =
     Inr (0, \<lparr>heap = [Some \<lparr>left = None, right = None, parent = None, data = None,
                             key = \<lparr>storage = [0, 0, 0, 0], bitCount = 0\<rparr>, bits = 0\<rparr>],
              root = Some 0, numNodes = 1\<rparr>) \<and>
   key_empty \<lparr>storage = [0, 0, 0, 0], bitCount = 0\<rparr> \<and>
   lookupNode [7, 7, 7, 7] \<lparr>storage = [10, 0, 0, 0], bitCount = 8\<rparr>
     (\<lparr>heap = [Some \<lparr>left = None, right = None, parent = None, data = None,
                     key = \<lparr>storage = [0, 0, 0, 0], bitCount = 0\<rparr>, bits = 0\<rparr>],
       root = Some 0, numNodes = 1\<rparr> :: nat trie) =
     Inr (1, (\<lparr>heap = [Some \<lparr>left = Some 1, right = None, parent = None, data = None,
                     key = \<lparr>storage = [0, 0, 0, 0], bitCount = 0\<rparr>, bits = 0\<rparr>,
               Some \<lparr>left = None, right = None, parent = Some 0, data = None,
                     key = \<lparr>storage = [10, 0, 0, 0], bitCount = 8\<rparr>, bits = 8\<rparr>],
       root = Some 0, numNodes = 2\<rparr> :: nat trie)) \<and>
   erase [7, 7, 7, 7] \<lparr>storage = [10, 0, 0, 0], bitCount = 8\<rparr>
     (\<lparr>heap = [Some \<lparr>left = Some 1, right = None, parent = None, data = None,
                     key = \<lparr>storage = [0, 0, 0, 0], bitCount = 0\<rparr>, bits = 0\<rparr>,
               Some \<lparr>left = None, right = None, parent = Some 0, data = None,
                     key = \<lparr>storage = [10, 0, 0, 0], bitCount = 8\<rparr>, bits = 8\<rparr>],
       root = Some 0, numNodes = 2\<rparr> :: nat trie) = Inl NullDeref"
  by code_simp

end
